theory Spec2Isabelle
  imports Main "HOL-Library.AList"
begin

section \<open>JavaScript values\<close>

text \<open>
  The values that travel through the hooks: request bodies, responses, thrown errors and
  the contents of the React state cells.  A JavaScript value that may be \<^verbatim>\<open>undefined\<close>
  is a \<open>jsval option\<close>, with \<open>None\<close> for \<^verbatim>\<open>undefined\<close>; \<^verbatim>\<open>null\<close> is a value of its own.
  Numbers are the integers among the JavaScript numbers; arrays and objects are always truthy.
\<close>

datatype jsval =
    Null
  | JBool bool
  | JNum int
  | JStr string
  | JArr "jsval list"
  | JObj "(string \<times> jsval) list"

type_synonym js = "jsval option"

text \<open>JavaScript truthiness, the test behind \<^verbatim>\<open>if (x)\<close> and \<^verbatim>\<open>!x\<close>.\<close>

fun truthy :: "js \<Rightarrow> bool" where
  "truthy None = False"
| "truthy (Some Null) = False"
| "truthy (Some (JBool b)) = b"
| "truthy (Some (JNum n)) = (n \<noteq> 0)"
| "truthy (Some (JStr s)) = (s \<noteq> [])"
| "truthy (Some (JArr xs)) = True"
| "truthy (Some (JObj kvs)) = True"

text \<open>The operator \<^verbatim>\<open>a ?? b\<close>: \<open>b\<close> when \<open>a\<close> is \<^verbatim>\<open>null\<close> or \<^verbatim>\<open>undefined\<close>.\<close>

fun nullish :: "js \<Rightarrow> js \<Rightarrow> js" where
  "nullish None b = b"
| "nullish (Some Null) b = b"
| "nullish (Some v) b = Some v"

text \<open>
  A React \<^verbatim>\<open>SetStateAction\<close>: a new value, or an updater function that React calls with
  the cell's current value.
\<close>

datatype action = SetValue js | Updater "js \<Rightarrow> js"

fun apply_action :: "action \<Rightarrow> js \<Rightarrow> js" where
  "apply_action (SetValue v) cur = v"
| "apply_action (Updater f) cur = f cur"

section \<open>Resource keys\<close>

text \<open>
  \<^verbatim>\<open>new URLSearchParams(query).toString()\<close>: the application/x-www-form-urlencoded
  serialisation of the entries of \<^verbatim>\<open>query\<close>, in the object's own enumeration order.
  A string is the sequence of its UTF-8 bytes.
\<close>

definition urlencoded_keep :: "char \<Rightarrow> bool" where
  "urlencoded_keep c \<longleftrightarrow>
     c \<in> set ''abcdefghijklmnopqrstuvwxyzABCDEFGHIJKLMNOPQRSTUVWXYZ0123456789*-._''"

definition hex_digit :: "nat \<Rightarrow> char" where
  "hex_digit n = ''0123456789ABCDEF'' ! (n mod 16)"

definition urlencoded_byte :: "char \<Rightarrow> string" where
  "urlencoded_byte c =
     (if urlencoded_keep c then [c]
      else if c = CHR '' '' then ''+''
      else [CHR ''%'', hex_digit ((of_char c :: nat) div 16), hex_digit ((of_char c :: nat) mod 16)])"

definition urlencoded :: "string \<Rightarrow> string" where
  "urlencoded s = concat (map urlencoded_byte s)"

fun join_amp :: "string list \<Rightarrow> string" where
  "join_amp [] = []"
| "join_amp [p] = p"
| "join_amp (p # q # ps) = p @ ''&'' @ join_amp (q # ps)"

definition URLSearchParams_toString :: "(string \<times> string) list \<Rightarrow> string" where
  "URLSearchParams_toString query =
     join_amp (map (\<lambda>(k, v). urlencoded k @ ''='' @ urlencoded v) query)"

text \<open>
  The template \<^verbatim>\<open>`${url}?${new URLSearchParams(query).toString()}`\<close>, guarded by
  \<^verbatim>\<open>if (query)\<close>: an object, even an empty one, is truthy; only an absent query leaves
  the address alone.
\<close>

definition withQuery :: "string \<Rightarrow> (string \<times> string) list option \<Rightarrow> string" where
  "withQuery url query =
     (case query of None \<Rightarrow> url | Some q \<Rightarrow> url @ ''?'' @ URLSearchParams_toString q)"

section \<open>The double maps\<close>

text \<open>
  \<^verbatim>\<open>Map<instanceId, Map<url, T>>\<close>.  The outer map is iterated by the code, so it is an
  association list in insertion order; the inner maps are only read with \<^verbatim>\<open>get\<close> and
  written with \<^verbatim>\<open>set\<close>, so they are partial functions, and storing \<^verbatim>\<open>undefined\<close> under
  a key reads back like an absent key.
\<close>

type_synonym 'v dmap = "(string \<times> (string \<rightharpoonup> 'v)) list"

definition getFromDoubleMap :: "'v dmap \<Rightarrow> string \<Rightarrow> string \<Rightarrow> 'v option" where
  "getFromDoubleMap m instanceId url =
     (case map_of m instanceId of None \<Rightarrow> None | Some instanceMap \<Rightarrow> instanceMap url)"

text \<open>\<^verbatim>\<open>if (!map.has(instanceId)) map.set(instanceId, new Map())\<close>\<close>

definition ensureInstance :: "'v dmap \<Rightarrow> string \<Rightarrow> 'v dmap" where
  "ensureInstance m instanceId =
     (if map_of m instanceId = None then m @ [(instanceId, Map.empty)] else m)"

definition setInDoubleMap :: "'v dmap \<Rightarrow> string \<Rightarrow> string \<Rightarrow> 'v option \<Rightarrow> 'v dmap" where
  "setInDoubleMap m instanceId url v =
     AList.map_entry instanceId (\<lambda>instanceMap. instanceMap(url := v))
       (ensureInstance m instanceId)"

fun getAllFromUrl :: "'v dmap \<Rightarrow> string \<Rightarrow> 'v list" where
  "getAllFromUrl [] url = []"
| "getAllFromUrl ((instanceId, instanceMap) # rest) url =
     (case instanceMap url of
        None \<Rightarrow> getAllFromUrl rest url
      | Some v \<Rightarrow> v # getAllFromUrl rest url)"

fun getAnyFromUrl :: "'v dmap \<Rightarrow> string \<Rightarrow> 'v option" where
  "getAnyFromUrl [] url = None"
| "getAnyFromUrl ((instanceId, instanceMap) # rest) url =
     (case instanceMap url of
        None \<Rightarrow> getAnyFromUrl rest url
      | Some v \<Rightarrow> Some v)"

section \<open>Hook options and closures\<close>

record get_options =
  g_query :: "(string \<times> string) list option"
  keepPreviousData :: bool

text \<open>
  \<^verbatim>\<open>optimisticData\<close> is a value or a function of the current value and the request body.
\<close>

datatype optimistic = OptValue jsval | OptFun "js \<Rightarrow> js \<Rightarrow> js"

record post_options =
  query :: "(string \<times> string) list option"
  getUrl :: "string option"
  getterQuery :: "(string \<times> string) list option"
  optimisticData :: "optimistic option"
  useResponseData :: "bool option"

text \<open>\<^verbatim>\<open>if (opts.optimisticData)\<close>: a function is truthy, a value by its truthiness.\<close>

fun truthy_optimistic :: "optimistic option \<Rightarrow> bool" where
  "truthy_optimistic None = False"
| "truthy_optimistic (Some (OptFun f)) = True"
| "truthy_optimistic (Some (OptValue v)) = truthy (Some v)"

text \<open>\<^verbatim>\<open>if (opts.getUrl)\<close>: the empty string is falsy.\<close>

fun truthy_string :: "string option \<Rightarrow> bool" where
  "truthy_string None = False"
| "truthy_string (Some s) = (s \<noteq> [])"

fun truthy_flag :: "bool option \<Rightarrow> bool" where
  "truthy_flag None = False"
| "truthy_flag (Some b) = b"

text \<open>
  The options object passed to one call of \<^verbatim>\<open>post\<close>.  \<^verbatim>\<open>Object.assign\<close> copies every
  property the object has, also one whose value is \<^verbatim>\<open>undefined\<close>, so for each property
  it matters whether it is there: \<open>None\<close> is a property the object does not have,
  \<open>Some None\<close> one it has with the value \<^verbatim>\<open>undefined\<close>, \<open>Some (Some x)\<close> one with a value.
  In the hook's own options a property that is missing and one that is \<^verbatim>\<open>undefined\<close> read
  alike, so \<open>post_options\<close> does not tell them apart.
\<close>

record post_overrides =
  o_query :: "(string \<times> string) list option option"
  o_getUrl :: "string option option"
  o_getterQuery :: "(string \<times> string) list option option"
  o_optimisticData :: "optimistic option option"
  o_useResponseData :: "bool option option"

text \<open>
  \<^verbatim>\<open>Object.assign({}, options, extraOptions)\<close>: a property that \<^verbatim>\<open>extraOptions\<close> has replaces
  the hook's, whatever its value; \<^verbatim>\<open>extraOptions\<close> itself may be absent.
\<close>

definition override :: "'a option \<Rightarrow> 'a option option \<Rightarrow> 'a option" where
  "override a b = (case b of None \<Rightarrow> a | Some x \<Rightarrow> x)"

definition assign :: "post_options \<Rightarrow> post_overrides option \<Rightarrow> post_options" where
  "assign options extraOptions =
     (case extraOptions of
        None \<Rightarrow> options
      | Some extra \<Rightarrow>
          \<lparr> query = override (query options) (o_query extra),
            getUrl = override (getUrl options) (o_getUrl extra),
            getterQuery = override (getterQuery options) (o_getterQuery extra),
            optimisticData = override (optimisticData options) (o_optimisticData extra),
            useResponseData = override (useResponseData options) (o_useResponseData extra) \<rparr>)"

text \<open>
  The closure \<^verbatim>\<open>trigger\<close> that a render of \<^verbatim>\<open>useGet\<close> creates: the variables of that
  render it reads.  \<open>t_url\<close> is the address already extended with the query, and \<open>t_data\<close>
  is the value \<^verbatim>\<open>data\<close> had in that render.
\<close>

record trigger_closure =
  t_instanceId :: string
  t_url :: string
  t_keepPreviousData :: bool
  t_data :: js

text \<open>The \<^verbatim>\<open>setData\<close> dispatcher of a \<^verbatim>\<open>useGet\<close> instance, named by the instance it belongs to.\<close>

datatype dispatch = SetData string

text \<open>A call of \<^verbatim>\<open>post\<close> suspended at its \<^verbatim>\<open>await\<close>: the local variables it resumes with.\<close>

record post_call =
  p_instanceId :: string
  p_url :: string
  p_epoch :: nat
  p_opts :: post_options
  p_currentUrl :: string
  p_currentGetUrl :: "string option"
  p_body :: js

text \<open>
  An operation waiting for its injected function: \<open>Fetch c epoch\<close> is a call of \<open>trigger\<close>
  awaiting \<^verbatim>\<open>getter(url)\<close>, \<open>Posting p\<close> a call of \<open>post\<close> awaiting \<^verbatim>\<open>poster(currentUrl, body)\<close>.
\<close>

datatype pending = Fetch trigger_closure nat | Posting post_call

text \<open>How an injected function settles: it resolves with a value or rejects with an error.\<close>

datatype outcome = Resolved js | Rejected js

section \<open>The state\<close>

record get_hook =
  g_data :: js
  isGetting :: bool
  g_error :: js

record post_hook =
  p_data :: js
  isPosting :: bool
  p_error :: js

text \<open>
  The six module-level maps, the React state cells of the mounted hook instances, the
  operations in flight and the timers set with \<^verbatim>\<open>setTimeout\<close> (delay in milliseconds).
  The epoch counters are JavaScript numbers that only ever take the values 0, 1, 2, ...;
  the arithmetic on them is exact below \<open>2 ^ 53\<close>, and they are natural numbers here.
\<close>

record world =
  getTriggerMap :: "trigger_closure dmap"
  getSetDataMap :: "dispatch dmap"
  getDataMap :: "jsval dmap"
  setDataMap :: "jsval dmap"
  getEpochMap :: "nat dmap"
  setEpochMap :: "nat dmap"
  getHooks :: "string \<rightharpoonup> get_hook"
  postHooks :: "string \<rightharpoonup> post_hook"
  inflight :: "pending list"
  timers :: "(nat \<times> trigger_closure) list"

definition initial :: world where
  "initial =
     \<lparr> getTriggerMap = [], getSetDataMap = [], getDataMap = [], setDataMap = [],
       getEpochMap = [], setEpochMap = [], getHooks = Map.empty, postHooks = Map.empty,
       inflight = [], timers = [] \<rparr>"

definition clearCache :: "world \<Rightarrow> world" where
  "clearCache w =
     w\<lparr> getTriggerMap := [], getSetDataMap := [], getDataMap := [],
        getEpochMap := [], setEpochMap := [] \<rparr>"

definition incrementGetEpoch :: "string \<Rightarrow> string \<Rightarrow> world \<Rightarrow> nat \<times> world" where
  "incrementGetEpoch instanceId url w =
     (let m = ensureInstance (getEpochMap w) instanceId;
          epoch = (case getFromDoubleMap m instanceId url of None \<Rightarrow> 0 | Some e \<Rightarrow> e);
          epoch = epoch + 1
      in (epoch,
          w\<lparr> getEpochMap :=
               AList.map_entry instanceId (\<lambda>instanceMap. instanceMap(url \<mapsto> epoch)) m \<rparr>))"

definition incrementSetEpoch :: "string \<Rightarrow> string \<Rightarrow> world \<Rightarrow> nat \<times> world" where
  "incrementSetEpoch instanceId url w =
     (let m = ensureInstance (setEpochMap w) instanceId;
          epoch = (case getFromDoubleMap m instanceId url of None \<Rightarrow> 0 | Some e \<Rightarrow> e);
          epoch = epoch + 1
      in (epoch,
          w\<lparr> setEpochMap :=
               AList.map_entry instanceId (\<lambda>instanceMap. instanceMap(url \<mapsto> epoch)) m \<rparr>))"

subsection \<open>React state setters\<close>

text \<open>
  A setter changes the cell of its own instance; on an instance that is not mounted
  React ignores the call.
\<close>

definition setData_get :: "string \<Rightarrow> action \<Rightarrow> world \<Rightarrow> world" where
  "setData_get i a w =
     w\<lparr> getHooks := (getHooks w)(i :=
          map_option (\<lambda>h. h\<lparr> g_data := apply_action a (g_data h) \<rparr>) (getHooks w i)) \<rparr>"

definition setIsGetting :: "string \<Rightarrow> bool \<Rightarrow> world \<Rightarrow> world" where
  "setIsGetting i b w =
     w\<lparr> getHooks := (getHooks w)(i := map_option (\<lambda>h. h\<lparr> isGetting := b \<rparr>) (getHooks w i)) \<rparr>"

definition setError_get :: "string \<Rightarrow> js \<Rightarrow> world \<Rightarrow> world" where
  "setError_get i e w =
     w\<lparr> getHooks := (getHooks w)(i := map_option (\<lambda>h. h\<lparr> g_error := e \<rparr>) (getHooks w i)) \<rparr>"

definition setData_post :: "string \<Rightarrow> action \<Rightarrow> world \<Rightarrow> world" where
  "setData_post i a w =
     w\<lparr> postHooks := (postHooks w)(i :=
          map_option (\<lambda>h. h\<lparr> p_data := apply_action a (p_data h) \<rparr>) (postHooks w i)) \<rparr>"

definition setIsPosting :: "string \<Rightarrow> bool \<Rightarrow> world \<Rightarrow> world" where
  "setIsPosting i b w =
     w\<lparr> postHooks := (postHooks w)(i := map_option (\<lambda>h. h\<lparr> isPosting := b \<rparr>) (postHooks w i)) \<rparr>"

definition setError_post :: "string \<Rightarrow> js \<Rightarrow> world \<Rightarrow> world" where
  "setError_post i e w =
     w\<lparr> postHooks := (postHooks w)(i := map_option (\<lambda>h. h\<lparr> p_error := e \<rparr>) (postHooks w i)) \<rparr>"

text \<open>Calling a dispatcher taken from the registry.\<close>

fun call_dispatch :: "action \<Rightarrow> world \<Rightarrow> dispatch \<Rightarrow> world" where
  "call_dispatch a w (SetData i) = setData_get i a w"

text \<open>\<^verbatim>\<open>setDataFunctions.forEach(setDataFn => setDataFn(x))\<close>\<close>

definition forEach_setData :: "dispatch list \<Rightarrow> action \<Rightarrow> world \<Rightarrow> world" where
  "forEach_setData setDataFunctions a w = foldl (call_dispatch a) w setDataFunctions"

text \<open>
  \<^verbatim>\<open>opts.optimisticData\<close> handed to a dispatcher as it is: React takes a function for an
  updater and calls it with the current value alone, so the request argument is \<^verbatim>\<open>undefined\<close>.
\<close>

fun optimistic_action :: "optimistic \<Rightarrow> action" where
  "optimistic_action (OptValue v) = SetValue (Some v)"
| "optimistic_action (OptFun f) = Updater (\<lambda>cur. f cur None)"

section \<open>The read coordinator\<close>

text \<open>
  \<^verbatim>\<open>trigger\<close> up to its \<^verbatim>\<open>await\<close>: a fresh epoch, the loading flag unless previous data
  is kept, and the call of the getter, which leaves the operation in flight.
\<close>

definition trigger :: "trigger_closure \<Rightarrow> world \<Rightarrow> world" where
  "trigger c w =
     (let (epoch, w) = incrementGetEpoch (t_instanceId c) (t_url c) w;
          w = (if \<not> t_keepPreviousData c then setIsGetting (t_instanceId c) True w else w)
      in w\<lparr> inflight := inflight w @ [Fetch c epoch] \<rparr>)"

text \<open>
  \<^verbatim>\<open>trigger\<close> from its \<^verbatim>\<open>await\<close> on, once the getter has settled: the \<^verbatim>\<open>try\<close> branch on a
  result, the \<^verbatim>\<open>catch\<close> branch on an error.
\<close>

fun trigger_resume :: "trigger_closure \<Rightarrow> nat \<Rightarrow> outcome \<Rightarrow> world \<Rightarrow> world" where
  "trigger_resume c epoch (Resolved result) w =
     (if getFromDoubleMap (getEpochMap w) (t_instanceId c) (t_url c) \<noteq> Some epoch then w
      else
        let w = setData_get (t_instanceId c) (SetValue result) w;
            w = w\<lparr> getDataMap := setInDoubleMap (getDataMap w) (t_instanceId c) (t_url c) result \<rparr>;
            w = setError_get (t_instanceId c) (Some Null) w
        in setIsGetting (t_instanceId c) False w)"
| "trigger_resume c epoch (Rejected err) w =
     (if getFromDoubleMap (getEpochMap w) (t_instanceId c) (t_url c) \<noteq> Some epoch then w
      else
        let w = setError_get (t_instanceId c) err w;
            w = setIsGetting (t_instanceId c) False w
        in if \<not> truthy (t_data c) then w\<lparr> timers := timers w @ [(1000, c)] \<rparr> else w)"

text \<open>\<^verbatim>\<open>triggers.forEach(trigger => trigger())\<close>\<close>

definition forEach_trigger :: "trigger_closure list \<Rightarrow> world \<Rightarrow> world" where
  "forEach_trigger triggers w = foldl (\<lambda>w c. trigger c w) w triggers"

text \<open>
  One render of \<^verbatim>\<open>useGet\<close> by the instance \<open>instanceId\<close> (the value \<^verbatim>\<open>useMemo\<close> keeps for
  the instance).  \<^verbatim>\<open>useState\<close> takes its argument on the first render only; later renders
  read the cell.  \<open>runEffect\<close> says whether React runs the effect after this render: it
  does after the first one and after one in which \<^verbatim>\<open>data\<close> has changed.
\<close>

definition useGet :: "string \<Rightarrow> string \<Rightarrow> get_options \<Rightarrow> bool \<Rightarrow> world \<Rightarrow> world" where
  "useGet instanceId url options runEffect w =
     (let url = withQuery url (g_query options);
          previousData = (if keepPreviousData options then getAnyFromUrl (getDataMap w) url else None);
          hook = (case getHooks w instanceId of
                    Some h \<Rightarrow> h
                  | None \<Rightarrow>
                      let data = nullish previousData (Some Null)
                      in \<lparr> g_data = data, isGetting = \<not> truthy data, g_error = Some Null \<rparr>);
          w = w\<lparr> getHooks := (getHooks w)(instanceId \<mapsto> hook) \<rparr>;
          trigger_fn = \<lparr> t_instanceId = instanceId, t_url = url,
                         t_keepPreviousData = keepPreviousData options, t_data = g_data hook \<rparr>;
          w = w\<lparr> getTriggerMap := setInDoubleMap (getTriggerMap w) instanceId url (Some trigger_fn) \<rparr>;
          w = w\<lparr> getSetDataMap := setInDoubleMap (getSetDataMap w) instanceId url (Some (SetData instanceId)) \<rparr>
      in if runEffect \<and> \<not> truthy (g_data hook) then trigger trigger_fn w else w)"

definition triggerGet :: "string \<Rightarrow> get_options option \<Rightarrow> world \<Rightarrow> world" where
  "triggerGet url options w =
     (let url = (case options of None \<Rightarrow> url | Some opts \<Rightarrow> withQuery url (g_query opts))
      in forEach_trigger (getAllFromUrl (getTriggerMap w) url) w)"

section \<open>The write coordinator\<close>

text \<open>The first render of \<^verbatim>\<open>usePost\<close>; later renders read the cell and change nothing.\<close>

definition usePost :: "string \<Rightarrow> world \<Rightarrow> world" where
  "usePost instanceId w =
     (case postHooks w instanceId of
        Some h \<Rightarrow> w
      | None \<Rightarrow>
          w\<lparr> postHooks := (postHooks w)(instanceId \<mapsto>
               \<lparr> p_data = Some Null, isPosting = False, p_error = Some Null \<rparr>) \<rparr>)"

text \<open>
  \<^verbatim>\<open>currentGetUrl\<close>: \<^verbatim>\<open>opts.getUrl\<close>, extended with \<^verbatim>\<open>opts.getterQuery\<close> when both are there.
\<close>

definition currentGetUrl_of :: "post_options \<Rightarrow> string option" where
  "currentGetUrl_of opts =
     (case getUrl opts of
        None \<Rightarrow> None
      | Some g \<Rightarrow>
          if g \<noteq> [] \<and> getterQuery opts \<noteq> None then Some (withQuery g (getterQuery opts))
          else Some g)"

text \<open>
  Where the code passes \<^verbatim>\<open>currentGetUrl\<close> to a map it has tested \<^verbatim>\<open>opts.getUrl\<close> first, so
  the key is a string there.
\<close>

definition key_of :: "string option \<Rightarrow> string" where
  "key_of k = (case k of None \<Rightarrow> [] | Some s \<Rightarrow> s)"

text \<open>\<^verbatim>\<open>post\<close> up to its \<^verbatim>\<open>await\<close>.\<close>

definition post ::
  "string \<Rightarrow> string \<Rightarrow> post_options \<Rightarrow> js \<Rightarrow> post_overrides option \<Rightarrow> world \<Rightarrow> world" where
  "post instanceId url options body extraOptions w =
     (let (epoch, w) = incrementSetEpoch instanceId url w;
          opts = assign options extraOptions;
          currentUrl = withQuery url (query opts);
          currentGetUrl = currentGetUrl_of opts;
          w = (if truthy_optimistic (optimisticData opts) then
                 let w = setData_post instanceId
                           (Updater (\<lambda>v. case optimisticData opts of
                                          Some (OptFun f) \<Rightarrow> f v body
                                        | Some (OptValue x) \<Rightarrow> Some x
                                        | None \<Rightarrow> None)) w
                 in if truthy_string (getUrl opts) then
                      (case optimisticData opts of
                         Some od \<Rightarrow>
                           forEach_setData (getAllFromUrl (getSetDataMap w) (key_of currentGetUrl))
                             (optimistic_action od) w
                       | None \<Rightarrow> w)
                    else w
               else setIsPosting instanceId True w)
      in w\<lparr> inflight := inflight w @
             [Posting \<lparr> p_instanceId = instanceId, p_url = url, p_epoch = epoch, p_opts = opts,
                        p_currentUrl = currentUrl, p_currentGetUrl = currentGetUrl,
                        p_body = body \<rparr>] \<rparr>)"

text \<open>
  \<^verbatim>\<open>for (const [instanceMapId] of getDataMap) setInDoubleMap(getDataMap, instanceMapId, currentGetUrl, result)\<close>
\<close>

definition overwrite_all :: "jsval dmap \<Rightarrow> string \<Rightarrow> js \<Rightarrow> jsval dmap" where
  "overwrite_all m url result =
     foldl (\<lambda>m instanceMapId. setInDoubleMap m instanceMapId url result) m (map fst m)"

text \<open>
  The rollback loop over the entries of \<^verbatim>\<open>getDataMap\<close>: an instance gets its own saved
  value back when it has a dispatcher registered for the key and the saved value is not
  \<^verbatim>\<open>undefined\<close>.
\<close>

fun restore_each :: "jsval dmap \<Rightarrow> string \<Rightarrow> world \<Rightarrow> world" where
  "restore_each [] url w = w"
| "restore_each ((currentInstanceId, instanceMap) # rest) url w =
     (let savedData = instanceMap url;
          setDataFn = getFromDoubleMap (getSetDataMap w) currentInstanceId url
      in restore_each rest url
           (case setDataFn of
              Some d \<Rightarrow> if savedData \<noteq> None then call_dispatch (SetValue savedData) w d else w
            | None \<Rightarrow> w))"

text \<open>\<^verbatim>\<open>post\<close> from its \<^verbatim>\<open>await\<close> on, once the poster has settled.\<close>

fun post_resume :: "post_call \<Rightarrow> outcome \<Rightarrow> world \<Rightarrow> world" where
  "post_resume p (Resolved result) w =
     (if getFromDoubleMap (setEpochMap w) (p_instanceId p) (p_url p) \<noteq> Some (p_epoch p) then w
      else
        let w = setData_post (p_instanceId p) (SetValue result) w;
            w = w\<lparr> setDataMap := setInDoubleMap (setDataMap w) (p_instanceId p) (p_url p) result \<rparr>;
            w = setError_post (p_instanceId p) (Some Null) w;
            w = setIsPosting (p_instanceId p) False w
        in if \<not> truthy_string (getUrl (p_opts p)) then w
           else if truthy_flag (useResponseData (p_opts p)) then
             let w = forEach_setData
                       (getAllFromUrl (getSetDataMap w) (key_of (p_currentGetUrl p)))
                       (SetValue result) w
             in w\<lparr> getDataMap := overwrite_all (getDataMap w) (key_of (p_currentGetUrl p)) result \<rparr>
           else forEach_trigger (getAllFromUrl (getTriggerMap w) (key_of (p_currentGetUrl p))) w)"
| "post_resume p (Rejected err) w =
     (if getFromDoubleMap (setEpochMap w) (p_instanceId p) (p_url p) \<noteq> Some (p_epoch p) then w
      else
        let w = setError_post (p_instanceId p) err w;
            w = setIsPosting (p_instanceId p) False w
        in if truthy_optimistic (optimisticData (p_opts p)) then
             let w = setData_post (p_instanceId p)
                       (SetValue (getFromDoubleMap (setDataMap w) (p_instanceId p) (p_url p))) w
             in if truthy_string (getUrl (p_opts p))
                then restore_each (getDataMap w) (key_of (p_currentGetUrl p)) w
                else w
           else w)"

section \<open>Events\<close>

text \<open>
  Everything that can happen to the state: a call of an exported function, a render of a
  hook, an injected function settling for the \<open>n\<close>-th operation in flight, and the
  \<open>n\<close>-th timer firing.  Execution is single-threaded, so events happen one at a time.
\<close>

datatype event =
    ClearCache
  | UseGet string string get_options bool
  | TriggerGet string "get_options option"
  | UsePost string
  | Post string string post_options js "post_overrides option"
  | Settle nat outcome
  | Fire nat

definition remove_nth :: "nat \<Rightarrow> 'a list \<Rightarrow> 'a list" where
  "remove_nth n xs = take n xs @ drop (Suc n) xs"

fun resume :: "pending \<Rightarrow> outcome \<Rightarrow> world \<Rightarrow> world" where
  "resume (Fetch c epoch) out w = trigger_resume c epoch out w"
| "resume (Posting p) out w = post_resume p out w"

fun exec :: "event \<Rightarrow> world \<Rightarrow> world" where
  "exec ClearCache w = clearCache w"
| "exec (UseGet instanceId url options runEffect) w = useGet instanceId url options runEffect w"
| "exec (TriggerGet url options) w = triggerGet url options w"
| "exec (UsePost instanceId) w = usePost instanceId w"
| "exec (Post instanceId url options body extraOptions) w =
     post instanceId url options body extraOptions w"
| "exec (Settle n out) w =
     (if n < length (inflight w)
      then resume (inflight w ! n) out (w\<lparr> inflight := remove_nth n (inflight w) \<rparr>)
      else w)"
| "exec (Fire n) w =
     (if n < length (timers w)
      then trigger (snd (timers w ! n)) (w\<lparr> timers := remove_nth n (timers w) \<rparr>)
      else w)"

text \<open>A run: the events of a list, in order.\<close>

definition run :: "event list \<Rightarrow> world \<Rightarrow> world" where
  "run evs w = foldl (\<lambda>w ev. exec ev w) w evs"

section \<open>Notions used by the properties\<close>

text \<open>The value of a counter as \<^verbatim>\<open>instanceMap.get(url) ?? 0\<close> reads it: 0 when there is none.\<close>

definition epoch_of :: "nat dmap \<Rightarrow> string \<Rightarrow> string \<Rightarrow> nat" where
  "epoch_of m instanceId url =
     (case getFromDoubleMap m instanceId url of None \<Rightarrow> 0 | Some e \<Rightarrow> e)"

text \<open>
  What \<^verbatim>\<open>useGet\<close>, the only writer of the two registries, maintains: the entry of an
  instance holds that instance's own dispatcher and a \<^verbatim>\<open>trigger\<close> closure of that instance
  for that key; and a \<^verbatim>\<open>Map\<close> has each key once.
\<close>

definition registry_ok :: "world \<Rightarrow> bool" where
  "registry_ok w \<longleftrightarrow>
     (\<forall>i k d. getFromDoubleMap (getSetDataMap w) i k = Some d \<longrightarrow> d = SetData i) \<and>
     (\<forall>i k c. getFromDoubleMap (getTriggerMap w) i k = Some c \<longrightarrow> t_instanceId c = i \<and> t_url c = k) \<and>
     distinct (map fst (getSetDataMap w)) \<and>
     distinct (map fst (getTriggerMap w)) \<and>
     distinct (map fst (getDataMap w))"

text \<open>The options with \<^verbatim>\<open>optimisticData\<close> left out.\<close>

definition without_optimistic :: "post_options \<Rightarrow> post_options" where
  "without_optimistic opts = opts\<lparr> optimisticData := None \<rparr>"

text \<open>The per-call options without an \<^verbatim>\<open>optimisticData\<close> property.\<close>

definition omit_optimistic :: "post_overrides \<Rightarrow> post_overrides" where
  "omit_optimistic extra = extra\<lparr> o_optimisticData := None \<rparr>"

text \<open>
  The staleness test both coordinators make when their injected function has settled:
  the ledger no longer holds the epoch the operation took at its start.
\<close>

fun stale :: "pending \<Rightarrow> world \<Rightarrow> bool" where
  "stale (Fetch c epoch) w \<longleftrightarrow>
     getFromDoubleMap (getEpochMap w) (t_instanceId c) (t_url c) \<noteq> Some epoch"
| "stale (Posting p) w \<longleftrightarrow>
     getFromDoubleMap (setEpochMap w) (p_instanceId p) (p_url p) \<noteq> Some (p_epoch p)"

section \<open>Example runs\<close>

text \<open>Concrete options, event lists and states on which the properties below are evaluated.\<close>

definition no_options :: post_options where
  "no_options = \<lparr> query = None, getUrl = None, getterQuery = None, optimisticData = None,
                   useResponseData = None \<rparr>"

definition plain_get :: get_options where
  "plain_get = \<lparr> g_query = None, keepPreviousData = False \<rparr>"

definition posted_world :: world where
  "posted_world =
     run [UsePost ''p1'', Post ''p1'' ''/items'' no_options (Some (JStr ''body'')) None,
          Settle 0 (Resolved (Some (JNum 7)))] initial"

definition optimistic_items :: post_options where
  "optimistic_items = no_options\<lparr> optimisticData := Some (OptValue (JStr ''guess'')) \<rparr>"

definition after_clear :: "event list" where
  "after_clear =
     [ClearCache, Post ''p1'' ''/items'' optimistic_items None None,
      Settle 0 (Rejected (Some (JStr ''boom'')))]"

definition two_fetches :: world where
  "two_fetches = run [UseGet ''i1'' ''/x'' plain_get True, TriggerGet ''/x'' None] initial"

definition two_posts :: world where
  "two_posts =
     run [UsePost ''p1'', Post ''p1'' ''/items'' no_options None None,
          Post ''p1'' ''/items'' no_options None None] initial"

definition busy_events :: "event list" where
  "busy_events =
     [UseGet ''i1'' ''/x'' plain_get True, Settle 0 (Rejected (Some (JStr ''down''))), Fire 0,
      TriggerGet ''/x'' None, UsePost ''p1'',
      Post ''p1'' ''/x'' no_options None None, Settle 2 (Resolved (Some (JNum 1)))]"

definition query_a1 :: post_options where
  "query_a1 = no_options\<lparr> query := Some [(''a'', ''1'')] \<rparr>"

definition query_a2 :: post_options where
  "query_a2 = no_options\<lparr> query := Some [(''a'', ''2'')] \<rparr>"

definition queried_post :: world where
  "queried_post = run [UsePost ''p1'', Post ''p1'' ''/items'' query_a1 None None] initial"

definition two_queries :: world where
  "two_queries =
     run [UsePost ''p1'', Post ''p1'' ''/items'' query_a1 None None,
          Post ''p1'' ''/items'' query_a2 None None] initial"

definition keep_get :: get_options where
  "keep_get = \<lparr> g_query = None, keepPreviousData = True \<rparr>"

definition cached_world :: world where
  "cached_world =
     run [UseGet ''i1'' ''/a'' plain_get True, Settle 0 (Resolved (Some (JNum 3))),
          UseGet ''i2'' ''/x'' plain_get True, Settle 0 (Resolved (Some (JStr ''first''))),
          UseGet ''i3'' ''/x'' plain_get True, Settle 0 (Resolved (Some (JStr ''second'')))] initial"

definition falsy_optimistic :: post_options where
  "falsy_optimistic = no_options\<lparr> optimisticData := Some (OptValue (JNum 0)), getUrl := Some ''/x'' \<rparr>"

definition optimistic_x :: post_options where
  "optimistic_x = no_options\<lparr> optimisticData := Some (OptValue (JStr ''guess'')), getUrl := Some ''/x'' \<rparr>"


definition respond_x :: post_options where
  "respond_x = no_options\<lparr> getUrl := Some ''/x'', useResponseData := Some True \<rparr>"

definition pushed_while_fetching :: world where
  "pushed_while_fetching =
     run [UseGet ''i1'' ''/x'' plain_get True, UsePost ''p1'',
          Post ''p1'' ''/x'' respond_x None None, Settle 1 (Resolved (Some (JStr ''fresh''))),
          UseGet ''i1'' ''/x'' plain_get True] initial"

definition refetch_x :: post_options where
  "refetch_x = no_options\<lparr> getUrl := Some ''/x'' \<rparr>"

definition optimistic_three :: world where
  "optimistic_three =
     run [UseGet ''i5'' ''/x'' plain_get True, UsePost ''p1'',
          Post ''p1'' ''/x'' optimistic_x None None] cached_world"

definition posting_three :: "post_options \<Rightarrow> world" where
  "posting_three options =
     run [UseGet ''i5'' ''/y'' plain_get False, UsePost ''p1'',
          Post ''p1'' ''/x'' options None None] cached_world"

definition optimistic_a2 :: post_options where
  "optimistic_a2 =
     no_options\<lparr> query := Some [(''a'', ''2'')], optimisticData := Some (OptValue (JStr ''guess'')) \<rparr>"

definition rollback_across_queries :: world where
  "rollback_across_queries =
     run [UsePost ''p1'', Post ''p1'' ''/items'' query_a1 None None,
          Settle 0 (Resolved (Some (JNum 7))),
          Post ''p1'' ''/items'' optimistic_a2 None None] initial"




definition falsy_response :: world where
  "falsy_response =
     run [Settle 0 (Resolved (Some Null)), UseGet ''i2'' ''/x'' plain_get True,
          UseGet ''i3'' ''/x'' plain_get True] (posting_three respond_x)"

section \<open>Basic facts\<close>

subsection \<open>double maps\<close>

lemma map_of_ensureInstance:
  "map_of (ensureInstance m i) = (if map_of m i = None then (map_of m)(i \<mapsto> Map.empty) else map_of m)"
  by (auto simp: ensureInstance_def fun_eq_iff map_add_def split: option.splits)

lemma getFromDoubleMap_ensureInstance [simp]:
  "getFromDoubleMap (ensureInstance m i) j k = getFromDoubleMap m j k"
  by (simp add: getFromDoubleMap_def map_of_ensureInstance)

lemma getFromDoubleMap_setInDoubleMap [simp]:
  "getFromDoubleMap (setInDoubleMap m i k v) j l =
     (if j = i \<and> l = k then v else getFromDoubleMap m j l)"
  by (auto simp: setInDoubleMap_def getFromDoubleMap_def map_of_map_entry map_of_ensureInstance split: option.splits)

lemma keys_ensureInstance:
  "map fst (ensureInstance m i) = (if i \<in> set (map fst m) then map fst m else map fst m @ [i])"
  by (auto simp: ensureInstance_def map_of_eq_None_iff)

lemma map_fst_map_entry [simp]: "map fst (AList.map_entry i f m) = map fst m"
  by (induction m) auto

lemma keys_setInDoubleMap:
  "map fst (setInDoubleMap m i k v) = (if i \<in> set (map fst m) then map fst m else map fst m @ [i])"
  by (simp add: setInDoubleMap_def keys_ensureInstance)

lemma distinct_setInDoubleMap [simp]:
  "distinct (map fst (setInDoubleMap m i k v)) = distinct (map fst m)"
  by (auto simp: keys_setInDoubleMap)

subsection \<open>epochs\<close>

lemma incrementGetEpoch_fst:
  "fst (incrementGetEpoch i k w) = Suc (epoch_of (getEpochMap w) i k)"
  by (simp add: incrementGetEpoch_def epoch_of_def Let_def split: option.splits)

lemma incrementSetEpoch_fst:
  "fst (incrementSetEpoch i k w) = Suc (epoch_of (setEpochMap w) i k)"
  by (simp add: incrementSetEpoch_def epoch_of_def Let_def split: option.splits)

lemma incrementGetEpoch_lookup:
  "getFromDoubleMap (getEpochMap (snd (incrementGetEpoch i k w))) j l =
     (if j = i \<and> l = k then Some (Suc (epoch_of (getEpochMap w) i k)) else getFromDoubleMap (getEpochMap w) j l)"
  by (auto simp: incrementGetEpoch_def epoch_of_def Let_def getFromDoubleMap_def map_of_map_entry map_of_ensureInstance split: option.splits)

lemma incrementSetEpoch_lookup:
  "getFromDoubleMap (setEpochMap (snd (incrementSetEpoch i k w))) j l =
     (if j = i \<and> l = k then Some (Suc (epoch_of (setEpochMap w) i k)) else getFromDoubleMap (setEpochMap w) j l)"
  by (auto simp: incrementSetEpoch_def epoch_of_def Let_def getFromDoubleMap_def map_of_map_entry map_of_ensureInstance split: option.splits)

lemma incrementGetEpoch_frame:
  "getTriggerMap (snd (incrementGetEpoch i k w)) = getTriggerMap w"
  "getSetDataMap (snd (incrementGetEpoch i k w)) = getSetDataMap w"
  "getDataMap (snd (incrementGetEpoch i k w)) = getDataMap w"
  "setDataMap (snd (incrementGetEpoch i k w)) = setDataMap w"
  "setEpochMap (snd (incrementGetEpoch i k w)) = setEpochMap w"
  "getHooks (snd (incrementGetEpoch i k w)) = getHooks w"
  "postHooks (snd (incrementGetEpoch i k w)) = postHooks w"
  "inflight (snd (incrementGetEpoch i k w)) = inflight w"
  "timers (snd (incrementGetEpoch i k w)) = timers w"
  by (simp_all add: incrementGetEpoch_def Let_def)

lemma incrementSetEpoch_frame:
  "getTriggerMap (snd (incrementSetEpoch i k w)) = getTriggerMap w"
  "getSetDataMap (snd (incrementSetEpoch i k w)) = getSetDataMap w"
  "getDataMap (snd (incrementSetEpoch i k w)) = getDataMap w"
  "setDataMap (snd (incrementSetEpoch i k w)) = setDataMap w"
  "getEpochMap (snd (incrementSetEpoch i k w)) = getEpochMap w"
  "getHooks (snd (incrementSetEpoch i k w)) = getHooks w"
  "postHooks (snd (incrementSetEpoch i k w)) = postHooks w"
  "inflight (snd (incrementSetEpoch i k w)) = inflight w"
  "timers (snd (incrementSetEpoch i k w)) = timers w"
  by (simp_all add: incrementSetEpoch_def Let_def)

lemma epoch_of_incrementGetEpoch:
  "epoch_of (getEpochMap (snd (incrementGetEpoch i k w))) j l =
     (if j = i \<and> l = k then Suc (epoch_of (getEpochMap w) i k) else epoch_of (getEpochMap w) j l)"
  by (simp add: epoch_of_def incrementGetEpoch_lookup)

lemma epoch_of_incrementSetEpoch:
  "epoch_of (setEpochMap (snd (incrementSetEpoch i k w))) j l =
     (if j = i \<and> l = k then Suc (epoch_of (setEpochMap w) i k) else epoch_of (setEpochMap w) j l)"
  by (simp add: epoch_of_def incrementSetEpoch_lookup)

subsection \<open>setters\<close>

lemma setData_get_frame [simp]:
  "getTriggerMap (setData_get i a w) = getTriggerMap w"
  "getSetDataMap (setData_get i a w) = getSetDataMap w"
  "getDataMap (setData_get i a w) = getDataMap w"
  "setDataMap (setData_get i a w) = setDataMap w"
  "getEpochMap (setData_get i a w) = getEpochMap w"
  "setEpochMap (setData_get i a w) = setEpochMap w"
  "postHooks (setData_get i a w) = postHooks w"
  "inflight (setData_get i a w) = inflight w"
  "timers (setData_get i a w) = timers w"
  by (simp_all add: setData_get_def)

lemma setIsGetting_frame [simp]:
  "getTriggerMap (setIsGetting i b w) = getTriggerMap w"
  "getSetDataMap (setIsGetting i b w) = getSetDataMap w"
  "getDataMap (setIsGetting i b w) = getDataMap w"
  "setDataMap (setIsGetting i b w) = setDataMap w"
  "getEpochMap (setIsGetting i b w) = getEpochMap w"
  "setEpochMap (setIsGetting i b w) = setEpochMap w"
  "postHooks (setIsGetting i b w) = postHooks w"
  "inflight (setIsGetting i b w) = inflight w"
  "timers (setIsGetting i b w) = timers w"
  by (simp_all add: setIsGetting_def)

lemma setError_get_frame [simp]:
  "getTriggerMap (setError_get i e w) = getTriggerMap w"
  "getSetDataMap (setError_get i e w) = getSetDataMap w"
  "getDataMap (setError_get i e w) = getDataMap w"
  "setDataMap (setError_get i e w) = setDataMap w"
  "getEpochMap (setError_get i e w) = getEpochMap w"
  "setEpochMap (setError_get i e w) = setEpochMap w"
  "postHooks (setError_get i e w) = postHooks w"
  "inflight (setError_get i e w) = inflight w"
  "timers (setError_get i e w) = timers w"
  by (simp_all add: setError_get_def)

lemma setData_post_frame [simp]:
  "getTriggerMap (setData_post i a w) = getTriggerMap w"
  "getSetDataMap (setData_post i a w) = getSetDataMap w"
  "getDataMap (setData_post i a w) = getDataMap w"
  "setDataMap (setData_post i a w) = setDataMap w"
  "getEpochMap (setData_post i a w) = getEpochMap w"
  "setEpochMap (setData_post i a w) = setEpochMap w"
  "getHooks (setData_post i a w) = getHooks w"
  "inflight (setData_post i a w) = inflight w"
  "timers (setData_post i a w) = timers w"
  by (simp_all add: setData_post_def)

lemma setIsPosting_frame [simp]:
  "getTriggerMap (setIsPosting i b w) = getTriggerMap w"
  "getSetDataMap (setIsPosting i b w) = getSetDataMap w"
  "getDataMap (setIsPosting i b w) = getDataMap w"
  "setDataMap (setIsPosting i b w) = setDataMap w"
  "getEpochMap (setIsPosting i b w) = getEpochMap w"
  "setEpochMap (setIsPosting i b w) = setEpochMap w"
  "getHooks (setIsPosting i b w) = getHooks w"
  "inflight (setIsPosting i b w) = inflight w"
  "timers (setIsPosting i b w) = timers w"
  by (simp_all add: setIsPosting_def)

lemma setError_post_frame [simp]:
  "getTriggerMap (setError_post i e w) = getTriggerMap w"
  "getSetDataMap (setError_post i e w) = getSetDataMap w"
  "getDataMap (setError_post i e w) = getDataMap w"
  "setDataMap (setError_post i e w) = setDataMap w"
  "getEpochMap (setError_post i e w) = getEpochMap w"
  "setEpochMap (setError_post i e w) = setEpochMap w"
  "getHooks (setError_post i e w) = getHooks w"
  "inflight (setError_post i e w) = inflight w"
  "timers (setError_post i e w) = timers w"
  by (simp_all add: setError_post_def)

lemma call_dispatch_frame [simp]:
  "getTriggerMap (call_dispatch a w d) = getTriggerMap w"
  "getSetDataMap (call_dispatch a w d) = getSetDataMap w"
  "getDataMap (call_dispatch a w d) = getDataMap w"
  "setDataMap (call_dispatch a w d) = setDataMap w"
  "getEpochMap (call_dispatch a w d) = getEpochMap w"
  "setEpochMap (call_dispatch a w d) = setEpochMap w"
  "postHooks (call_dispatch a w d) = postHooks w"
  "inflight (call_dispatch a w d) = inflight w"
  "timers (call_dispatch a w d) = timers w"
  by (cases d; simp)+

lemma forEach_setData_frame [simp]:
  "getTriggerMap (forEach_setData ds a w) = getTriggerMap w"
  "getSetDataMap (forEach_setData ds a w) = getSetDataMap w"
  "getDataMap (forEach_setData ds a w) = getDataMap w"
  "setDataMap (forEach_setData ds a w) = setDataMap w"
  "getEpochMap (forEach_setData ds a w) = getEpochMap w"
  "setEpochMap (forEach_setData ds a w) = setEpochMap w"
  "postHooks (forEach_setData ds a w) = postHooks w"
  "inflight (forEach_setData ds a w) = inflight w"
  "timers (forEach_setData ds a w) = timers w"
  unfolding forEach_setData_def by (induction ds arbitrary: w; simp)+

lemma restore_each_fields:
  "getTriggerMap (restore_each m k w) = getTriggerMap w \<and>
   getSetDataMap (restore_each m k w) = getSetDataMap w \<and>
   getDataMap (restore_each m k w) = getDataMap w \<and>
   setDataMap (restore_each m k w) = setDataMap w \<and>
   getEpochMap (restore_each m k w) = getEpochMap w \<and>
   setEpochMap (restore_each m k w) = setEpochMap w \<and>
   postHooks (restore_each m k w) = postHooks w \<and>
   inflight (restore_each m k w) = inflight w \<and>
   timers (restore_each m k w) = timers w"
proof (induction m arbitrary: w)
  case Nil
  show ?case by simp
next
  case (Cons a m)
  obtain i im where a: "a = (i, im)" by (cases a)
  show ?case
    unfolding a restore_each.simps Let_def
    by (simp add: Cons.IH split: option.splits)
qed

lemma restore_each_frame [simp]:
  "getTriggerMap (restore_each m k w) = getTriggerMap w"
  "getSetDataMap (restore_each m k w) = getSetDataMap w"
  "getDataMap (restore_each m k w) = getDataMap w"
  "setDataMap (restore_each m k w) = setDataMap w"
  "getEpochMap (restore_each m k w) = getEpochMap w"
  "setEpochMap (restore_each m k w) = setEpochMap w"
  "postHooks (restore_each m k w) = postHooks w"
  "inflight (restore_each m k w) = inflight w"
  "timers (restore_each m k w) = timers w"
  using restore_each_fields [of m k w] by simp_all

subsection \<open>trigger\<close>

lemma trigger_frame [simp]:
  "getTriggerMap (trigger c w) = getTriggerMap w"
  "getSetDataMap (trigger c w) = getSetDataMap w"
  "getDataMap (trigger c w) = getDataMap w"
  "setDataMap (trigger c w) = setDataMap w"
  "setEpochMap (trigger c w) = setEpochMap w"
  "postHooks (trigger c w) = postHooks w"
  "timers (trigger c w) = timers w"
  by (simp_all add: trigger_def incrementGetEpoch_def Let_def)

lemma getEpochMap_trigger:
  "getEpochMap (trigger c w) = getEpochMap (snd (incrementGetEpoch (t_instanceId c) (t_url c) w))"
  by (simp add: trigger_def split_beta Let_def)

lemma inflight_trigger:
  "inflight (trigger c w) = inflight w @ [Fetch c (Suc (epoch_of (getEpochMap w) (t_instanceId c) (t_url c)))]"
  by (simp add: trigger_def split_beta Let_def incrementGetEpoch_frame incrementGetEpoch_fst)

lemma epoch_of_trigger:
  "epoch_of (getEpochMap (trigger c w)) j l =
     (if j = t_instanceId c \<and> l = t_url c then Suc (epoch_of (getEpochMap w) j l) else epoch_of (getEpochMap w) j l)"
  by (simp add: getEpochMap_trigger epoch_of_incrementGetEpoch)

lemma forEach_trigger_frame [simp]:
  "getTriggerMap (forEach_trigger cs w) = getTriggerMap w"
  "getSetDataMap (forEach_trigger cs w) = getSetDataMap w"
  "getDataMap (forEach_trigger cs w) = getDataMap w"
  "setDataMap (forEach_trigger cs w) = setDataMap w"
  "setEpochMap (forEach_trigger cs w) = setEpochMap w"
  "postHooks (forEach_trigger cs w) = postHooks w"
  "timers (forEach_trigger cs w) = timers w"
  unfolding forEach_trigger_def by (induction cs arbitrary: w; simp)+

lemma epoch_of_forEach_trigger_mono:
  "epoch_of (getEpochMap w) j l \<le> epoch_of (getEpochMap (forEach_trigger cs w)) j l"
  unfolding forEach_trigger_def
proof (induction cs arbitrary: w)
  case Nil
  show ?case by simp
next
  case (Cons c cs)
  have "epoch_of (getEpochMap w) j l \<le> epoch_of (getEpochMap (trigger c w)) j l"
    by (simp add: epoch_of_trigger)
  also have "\<dots> \<le> epoch_of (getEpochMap (foldl (\<lambda>w c. trigger c w) (trigger c w) cs)) j l"
    by (rule Cons.IH)
  finally show ?case by simp
qed

subsection \<open>What each operation does to the ledgers\<close>

lemma useGet_setEpochMap [simp]: "setEpochMap (useGet i url options eff w) = setEpochMap w"
  by (simp add: useGet_def Let_def)

lemma useGet_epoch_mono:
  "epoch_of (getEpochMap w) j l \<le> epoch_of (getEpochMap (useGet i url options eff w)) j l"
  by (simp add: useGet_def Let_def epoch_of_trigger)

lemma triggerGet_setEpochMap [simp]: "setEpochMap (triggerGet url options w) = setEpochMap w"
  by (simp add: triggerGet_def Let_def)

lemma triggerGet_epoch_mono:
  "epoch_of (getEpochMap w) j l \<le> epoch_of (getEpochMap (triggerGet url options w)) j l"
  by (simp add: triggerGet_def Let_def epoch_of_forEach_trigger_mono)

lemma usePost_epochs [simp]:
  "getEpochMap (usePost i w) = getEpochMap w"
  "setEpochMap (usePost i w) = setEpochMap w"
  by (simp_all add: usePost_def split: option.splits)

lemma post_getEpochMap [simp]:
  "getEpochMap (post i url options body extra w) = getEpochMap w"
  by (simp add: post_def split_beta Let_def incrementSetEpoch_frame split: option.splits)

lemma post_setEpochMap:
  "setEpochMap (post i url options body extra w) = setEpochMap (snd (incrementSetEpoch i url w))"
  by (simp add: post_def split_beta Let_def split: option.splits)

lemma trigger_resume_epochs [simp]:
  "getEpochMap (trigger_resume c e out w) = getEpochMap w"
  "setEpochMap (trigger_resume c e out w) = setEpochMap w"
  by (cases out; simp add: Let_def)+

lemma post_resume_setEpochMap [simp]:
  "setEpochMap (post_resume p out w) = setEpochMap w"
  by (cases out) (simp_all add: Let_def)

lemma post_resume_epoch_mono:
  "epoch_of (getEpochMap w) j l \<le> epoch_of (getEpochMap (post_resume p out w)) j l"
proof (cases out)
  case (Resolved r)
  have "epoch_of (getEpochMap w) j l \<le> epoch_of (getEpochMap (forEach_trigger cs w')) j l"
    if "getEpochMap w' = getEpochMap w" for cs w'
    using epoch_of_forEach_trigger_mono [of w' j l cs] that by simp
  then show ?thesis
    using Resolved by (simp add: Let_def)
next
  case (Rejected e)
  then show ?thesis by (simp add: Let_def)
qed

lemma exec_get_epoch_mono:
  assumes "ev \<noteq> ClearCache"
  shows "epoch_of (getEpochMap w) j l \<le> epoch_of (getEpochMap (exec ev w)) j l"
proof (cases ev)
  case (Settle n out)
  show ?thesis
  proof (cases "n < length (inflight w)")
    case True
    let ?w = "w\<lparr> inflight := remove_nth n (inflight w) \<rparr>"
    have "epoch_of (getEpochMap ?w) j l \<le> epoch_of (getEpochMap (resume (inflight w ! n) out ?w)) j l"
    proof (cases "inflight w ! n")
      case (Fetch c e)
      then show ?thesis by simp
    next
      case (Posting p)
      then show ?thesis using post_resume_epoch_mono [of ?w j l p out] by simp
    qed
    then show ?thesis using Settle True by simp
  next
    case False
    then show ?thesis using Settle by simp
  qed
next
  case (Fire n)
  then show ?thesis by (simp add: epoch_of_trigger)
qed (use assms in \<open>simp_all add: useGet_epoch_mono triggerGet_epoch_mono\<close>)

lemma exec_set_epoch_mono:
  assumes "ev \<noteq> ClearCache"
  shows "epoch_of (setEpochMap w) j l \<le> epoch_of (setEpochMap (exec ev w)) j l"
proof (cases ev)
  case (Settle n out)
  show ?thesis
  proof (cases "n < length (inflight w)")
    case True
    let ?w = "w\<lparr> inflight := remove_nth n (inflight w) \<rparr>"
    have "setEpochMap (resume (inflight w ! n) out ?w) = setEpochMap w"
      by (cases "inflight w ! n") simp_all
    then show ?thesis using Settle True by simp
  next
    case False
    then show ?thesis using Settle by simp
  qed
qed (use assms in \<open>simp_all add: post_setEpochMap epoch_of_incrementSetEpoch\<close>)

lemma run_epoch_mono:
  assumes "ClearCache \<notin> set evs"
  shows "epoch_of (getEpochMap w) j l \<le> epoch_of (getEpochMap (run evs w)) j l \<and>
         epoch_of (setEpochMap w) j l \<le> epoch_of (setEpochMap (run evs w)) j l"
  using assms unfolding run_def
proof (induction evs arbitrary: w)
  case Nil
  show ?case by simp
next
  case (Cons ev evs)
  have ev: "ev \<noteq> ClearCache" and evs: "ClearCache \<notin> set evs"
    using Cons.prems by auto
  have "epoch_of (getEpochMap w) j l \<le> epoch_of (getEpochMap (exec ev w)) j l"
       "epoch_of (setEpochMap w) j l \<le> epoch_of (setEpochMap (exec ev w)) j l"
    using exec_get_epoch_mono [OF ev] exec_set_epoch_mono [OF ev] by blast+
  moreover note Cons.IH [OF evs, of "exec ev w"]
  ultimately show ?case by auto
qed

subsection \<open>post\<close>

lemma post_inflight:
  "inflight (post i url options body extraOptions w) =
     inflight w @
       [Posting \<lparr> p_instanceId = i, p_url = url, p_epoch = Suc (epoch_of (setEpochMap w) i url),
                  p_opts = assign options extraOptions,
                  p_currentUrl = withQuery url (query (assign options extraOptions)),
                  p_currentGetUrl = currentGetUrl_of (assign options extraOptions),
                  p_body = body \<rparr>]"
  by (simp add: post_def split_beta Let_def incrementSetEpoch_frame incrementSetEpoch_fst
      split: option.splits)

lemma post_resume_rejected_postHooks:
  assumes "\<not> stale (Posting p) w"
  shows "postHooks (post_resume p (Rejected err) w) =
     (postHooks w)(p_instanceId p :=
        map_option (\<lambda>h. \<lparr> p_data = (if truthy_optimistic (optimisticData (p_opts p))
                                       then getFromDoubleMap (setDataMap w) (p_instanceId p) (p_url p)
                                       else p_data h),
                            isPosting = False, p_error = err \<rparr>)
          (postHooks w (p_instanceId p)))"
  using assms
  by (cases "postHooks w (p_instanceId p)")
     (auto simp: Let_def setData_post_def setIsPosting_def setError_post_def fun_eq_iff)

subsection \<open>useGet\<close>

lemma getAnyFromUrl_Some_iff:
  "getAnyFromUrl m k = Some v \<longleftrightarrow>
     (\<exists>pre j im post. m = pre @ (j, im) # post \<and> im k = Some v \<and> (\<forall>e \<in> set pre. snd e k = None))"
proof (induction m)
  case Nil
  show ?case by simp
next
  case (Cons a m)
  obtain i0 im0 where a: "a = (i0, im0)" by (cases a)
  show ?case
  proof (cases "im0 k")
    case None
    have "(\<exists>pre j im post. (i0, im0) # m = pre @ (j, im) # post \<and> im k = Some v \<and> (\<forall>e \<in> set pre. snd e k = None))
       \<longleftrightarrow> (\<exists>pre j im post. m = pre @ (j, im) # post \<and> im k = Some v \<and> (\<forall>e \<in> set pre. snd e k = None))"
      (is "?L \<longleftrightarrow> ?R")
    proof
      assume ?L
      then obtain pre j im post where
        eq: "(i0, im0) # m = pre @ (j, im) # post" and v: "im k = Some v"
        and pre: "\<forall>e \<in> set pre. snd e k = None" by blast
      from eq v None obtain pre' where "pre = (i0, im0) # pre'" "m = pre' @ (j, im) # post"
        by (cases pre) auto
      with v pre show ?R by auto
    next
      assume ?R
      then obtain pre j im post where
        "m = pre @ (j, im) # post" "im k = Some v" "\<forall>e \<in> set pre. snd e k = None" by blast
      then have "(i0, im0) # m = ((i0, im0) # pre) @ (j, im) # post \<and> im k = Some v \<and>
          (\<forall>e \<in> set ((i0, im0) # pre). snd e k = None)"
        using None by simp
      then show ?L by blast
    qed
    then show ?thesis using None a Cons.IH by simp
  next
    case (Some u)
    have "(\<exists>pre j im post. (i0, im0) # m = pre @ (j, im) # post \<and> im k = Some v \<and> (\<forall>e \<in> set pre. snd e k = None))
       \<longleftrightarrow> u = v" (is "?L \<longleftrightarrow> _")
    proof
      assume ?L
      then obtain pre j im post where
        eq: "(i0, im0) # m = pre @ (j, im) # post" and v: "im k = Some v"
        and pre: "\<forall>e \<in> set pre. snd e k = None" by blast
      show "u = v"
      proof (cases pre)
        case Nil
        with eq v Some show ?thesis by simp
      next
        case (Cons b pre')
        with eq pre Some show ?thesis by auto
      qed
    next
      assume "u = v"
      then have "(i0, im0) # m = [] @ (i0, im0) # m \<and> im0 k = Some v \<and> (\<forall>e \<in> set []. snd e k = None)"
        using Some by simp
      then show ?L by blast
    qed
    then show ?thesis using Some a by simp
  qed
qed

lemma getAnyFromUrl_None_iff:
  "getAnyFromUrl m k = None \<longleftrightarrow> (\<forall>e \<in> set m. snd e k = None)"
  by (induction m) (auto split: option.splits)

lemma useGet_getHooks_first:
  assumes "getHooks w i = None"
  shows "getHooks (useGet i url options eff w) i =
     Some (let d = (if keepPreviousData options
                    then nullish (getAnyFromUrl (getDataMap w) (withQuery url (g_query options))) (Some Null)
                    else Some Null)
           in \<lparr> g_data = d, isGetting = \<not> truthy d, g_error = Some Null \<rparr>)"
  using assms
  by (auto simp: useGet_def Let_def trigger_def split_beta setIsGetting_def incrementGetEpoch_frame)

lemma nullish_Some: "nullish (Some v) (Some Null) = Some v"
  by (cases v) simp_all

lemma assign_without_optimistic:
  "assign (without_optimistic options) (map_option omit_optimistic extraOptions) =
     without_optimistic (assign options extraOptions)"
  by (cases extraOptions)
     (simp_all add: assign_def without_optimistic_def omit_optimistic_def override_def)

lemma assign_present_undefined:
  "o_optimisticData extra = Some None \<Longrightarrow> optimisticData (assign options (Some extra)) = None"
  "o_query extra = Some None \<Longrightarrow> query (assign options (Some extra)) = None"
  "o_getUrl extra = Some None \<Longrightarrow> getUrl (assign options (Some extra)) = None"
  by (simp_all add: assign_def override_def)

lemma without_optimistic_fields [simp]:
  "query (without_optimistic opts) = query opts"
  "getUrl (without_optimistic opts) = getUrl opts"
  "getterQuery (without_optimistic opts) = getterQuery opts"
  "useResponseData (without_optimistic opts) = useResponseData opts"
  "optimisticData (without_optimistic opts) = None"
  by (simp_all add: without_optimistic_def)

lemma currentGetUrl_of_without_optimistic [simp]:
  "currentGetUrl_of (without_optimistic opts) = currentGetUrl_of opts"
  by (simp add: currentGetUrl_of_def split: option.splits)

lemma post_not_optimistic:
  assumes "\<not> truthy_optimistic (optimisticData (assign options extraOptions))"
  shows "post i url options body extraOptions w =
     (setIsPosting i True (snd (incrementSetEpoch i url w)))
       \<lparr> inflight := inflight w @
           [Posting \<lparr> p_instanceId = i, p_url = url, p_epoch = Suc (epoch_of (setEpochMap w) i url),
                  p_opts = assign options extraOptions,
                  p_currentUrl = withQuery url (query (assign options extraOptions)),
                  p_currentGetUrl = currentGetUrl_of (assign options extraOptions),
                  p_body = body \<rparr>] \<rparr>"
  using assms
  by (simp add: post_def split_beta Let_def incrementSetEpoch_frame incrementSetEpoch_fst)

lemma post_resume_not_optimistic:
  assumes "\<not> truthy_optimistic (optimisticData (p_opts p))"
  shows "post_resume p out w = post_resume (p\<lparr> p_opts := without_optimistic (p_opts p) \<rparr>) out w"
  using assms by (cases out) (simp_all add: Let_def)

subsection \<open>Loops over the registries and the cache\<close>

lemma getFromDoubleMap_Cons:
  "getFromDoubleMap ((i, im) # m) j k = (if j = i then im k else getFromDoubleMap m j k)"
  by (simp add: getFromDoubleMap_def)

lemma getFromDoubleMap_notin:
  "j \<notin> fst ` set m \<Longrightarrow> getFromDoubleMap m j k = None"
  by (simp add: getFromDoubleMap_def map_of_eq_None_iff [THEN iffD2])

lemma call_dispatch_getHooks:
  "getHooks (call_dispatch (SetValue v) w (SetData i)) j =
     (if j = i then map_option (\<lambda>h. h\<lparr> g_data := v \<rparr>) (getHooks w i) else getHooks w j)"
  by (simp add: setData_get_def)

lemma restore_each_getHooks:
  assumes "distinct (map fst m)"
    and "\<forall>j d. getFromDoubleMap (getSetDataMap w) j k = Some d \<longrightarrow> d = SetData j"
  shows "getHooks (restore_each m k w) j =
     (case getFromDoubleMap m j k of
        Some v \<Rightarrow>
          if getFromDoubleMap (getSetDataMap w) j k \<noteq> None
          then map_option (\<lambda>h. h\<lparr> g_data := Some v \<rparr>) (getHooks w j)
          else getHooks w j
      | None \<Rightarrow> getHooks w j)"
  using assms
proof (induction m arbitrary: w)
  case Nil
  show ?case by (simp add: getFromDoubleMap_def)
next
  case (Cons a m)
  obtain i im where a: "a = (i, im)" by (cases a)
  define w1 where "w1 =
     (case getFromDoubleMap (getSetDataMap w) i k of
        Some d \<Rightarrow> if im k \<noteq> None then call_dispatch (SetValue (im k)) w d else w
      | None \<Rightarrow> w)"
  have step: "restore_each (a # m) k w = restore_each m k w1"
    by (simp add: a w1_def Let_def)
  have reg: "getSetDataMap w1 = getSetDataMap w"
    by (simp add: w1_def split: option.splits)
  have dist: "distinct (map fst m)" and fresh: "i \<notin> fst ` set m"
    using Cons.prems(1) by (auto simp: a)
  have hooks1: "getHooks w1 j =
     (if j = i then
        (case im k of
           Some v \<Rightarrow>
             if getFromDoubleMap (getSetDataMap w) i k \<noteq> None
             then map_option (\<lambda>h. h\<lparr> g_data := Some v \<rparr>) (getHooks w i)
             else getHooks w i
         | None \<Rightarrow> getHooks w i)
      else getHooks w j)"
  proof (cases "getFromDoubleMap (getSetDataMap w) i k")
    case None
    then show ?thesis by (simp add: w1_def split: option.splits)
  next
    case (Some d)
    with Cons.prems(2) have d: "d = SetData i" by blast
    show ?thesis
      using Some by (auto simp: w1_def d setData_get_def split: option.splits)
  qed
  have IH: "getHooks (restore_each m k w1) j =
     (case getFromDoubleMap m j k of
        Some v \<Rightarrow>
          if getFromDoubleMap (getSetDataMap w) j k \<noteq> None
          then map_option (\<lambda>h. h\<lparr> g_data := Some v \<rparr>) (getHooks w1 j)
          else getHooks w1 j
      | None \<Rightarrow> getHooks w1 j)"
  proof -
    have "\<forall>j d. getFromDoubleMap (getSetDataMap w1) j k = Some d \<longrightarrow> d = SetData j"
      using Cons.prems(2) by (simp add: reg)
    from Cons.IH [OF dist this] show ?thesis
      unfolding reg .
  qed
  show ?case
  proof (cases "j = i")
    case True
    then have "getFromDoubleMap m j k = None"
      using fresh by (simp add: getFromDoubleMap_notin)
    then show ?thesis
      unfolding step IH using True hooks1 by (simp add: a getFromDoubleMap_Cons split: option.splits)
  next
    case False
    then show ?thesis
      unfolding step IH using hooks1 by (simp add: a getFromDoubleMap_Cons split: option.splits)
  qed
qed

lemma forEach_setData_getHooks:
  "getHooks (forEach_setData ds (SetValue v) w) j =
     (if SetData j \<in> set ds then map_option (\<lambda>h. h\<lparr> g_data := v \<rparr>) (getHooks w j)
      else getHooks w j)"
  unfolding forEach_setData_def
proof (induction ds arbitrary: w)
  case Nil
  show ?case by simp
next
  case (Cons d ds)
  obtain i where d: "d = SetData i" by (cases d)
  show ?case
    by (cases "getHooks w j") (auto simp: Cons.IH d setData_get_def)
qed

lemma in_getAllFromUrl_iff:
  "v \<in> set (getAllFromUrl m k) \<longleftrightarrow> (\<exists>e \<in> set m. snd e k = Some v)"
  by (induction m) (auto split: option.splits)

lemma getFromDoubleMap_distinct_iff:
  assumes "distinct (map fst m)"
  shows "getFromDoubleMap m j k = Some v \<longleftrightarrow> (\<exists>im. (j, im) \<in> set m \<and> im k = Some v)"
proof
  assume "getFromDoubleMap m j k = Some v"
  then obtain im where "map_of m j = Some im" "im k = Some v"
    by (auto simp: getFromDoubleMap_def split: option.splits)
  then show "\<exists>im. (j, im) \<in> set m \<and> im k = Some v"
    by (blast dest: map_of_SomeD)
next
  assume "\<exists>im. (j, im) \<in> set m \<and> im k = Some v"
  then obtain im where "(j, im) \<in> set m" "im k = Some v" by blast
  then show "getFromDoubleMap m j k = Some v"
    using map_of_is_SomeI [OF assms] by (simp add: getFromDoubleMap_def)
qed

lemma registered_dispatch_iff:
  assumes "distinct (map fst m)"
    and "\<forall>j d. getFromDoubleMap m j k = Some d \<longrightarrow> d = SetData j"
  shows "SetData j \<in> set (getAllFromUrl m k) \<longleftrightarrow> getFromDoubleMap m j k \<noteq> None"
proof
  assume "SetData j \<in> set (getAllFromUrl m k)"
  then obtain j' im where e: "(j', im) \<in> set m" "im k = Some (SetData j)"
    unfolding in_getAllFromUrl_iff by force
  then have "getFromDoubleMap m j' k = Some (SetData j)"
    using getFromDoubleMap_distinct_iff [OF assms(1)] by blast
  with assms(2) have "j' = j" by blast
  with \<open>getFromDoubleMap m j' k = Some (SetData j)\<close>
  show "getFromDoubleMap m j k \<noteq> None" by simp
next
  assume "getFromDoubleMap m j k \<noteq> None"
  then obtain d where d: "getFromDoubleMap m j k = Some d" by blast
  with assms(2) have "d = SetData j" by blast
  with d obtain im where "(j, im) \<in> set m" "im k = Some (SetData j)"
    using getFromDoubleMap_distinct_iff [OF assms(1)] by blast
  then show "SetData j \<in> set (getAllFromUrl m k)"
    unfolding in_getAllFromUrl_iff by force
qed

lemma foldl_setInDoubleMap_lookup:
  "getFromDoubleMap (foldl (\<lambda>m i. setInDoubleMap m i k v) m js) j l =
     (if l = k \<and> j \<in> set js then v else getFromDoubleMap m j l)"
  by (induction js arbitrary: m) auto

lemma foldl_setInDoubleMap_keys:
  "set js \<subseteq> set (map fst m) \<Longrightarrow> map fst (foldl (\<lambda>m i. setInDoubleMap m i k v) m js) = map fst m"
proof (induction js arbitrary: m)
  case Nil
  show ?case by simp
next
  case (Cons i js)
  have i: "i \<in> set (map fst m)" and js: "set js \<subseteq> set (map fst m)"
    using Cons.prems by auto
  have keys: "map fst (setInDoubleMap m i k v) = map fst m"
    using i by (simp add: keys_setInDoubleMap)
  have "map fst (foldl (\<lambda>m i. setInDoubleMap m i k v) (setInDoubleMap m i k v) js) =
      map fst (setInDoubleMap m i k v)"
    by (rule Cons.IH) (use js keys in simp)
  then show ?case by (simp add: keys)
qed

lemma overwrite_all_lookup:
  "getFromDoubleMap (overwrite_all m k v) j l =
     (if l = k \<and> j \<in> fst ` set m then v else getFromDoubleMap m j l)"
  by (simp add: overwrite_all_def foldl_setInDoubleMap_lookup)

lemma overwrite_all_keys: "map fst (overwrite_all m k v) = map fst m"
  by (simp add: overwrite_all_def foldl_setInDoubleMap_keys)

lemma trigger_lookup:
  "getFromDoubleMap (getEpochMap (trigger c w)) j l =
     (if j = t_instanceId c \<and> l = t_url c then Some (Suc (epoch_of (getEpochMap w) j l))
      else getFromDoubleMap (getEpochMap w) j l)"
  by (simp add: getEpochMap_trigger incrementGetEpoch_lookup)

lemma trigger_g_data:
  "map_option g_data (getHooks (trigger c w) j) = map_option g_data (getHooks w j)"
  by (cases "getHooks w j")
     (auto simp: trigger_def split_beta Let_def setIsGetting_def incrementGetEpoch_frame)

lemma forEach_trigger_g_data:
  "map_option g_data (getHooks (forEach_trigger cs w) j) = map_option g_data (getHooks w j)"
  unfolding forEach_trigger_def
  by (induction cs arbitrary: w) (simp_all add: trigger_g_data)

lemma forEach_trigger_effect:
  assumes "distinct (map t_instanceId cs)" and "\<forall>c \<in> set cs. t_url c = k"
  shows "getFromDoubleMap (getEpochMap (forEach_trigger cs w)) j l =
           (if l = k \<and> j \<in> t_instanceId ` set cs then Some (Suc (epoch_of (getEpochMap w) j k))
            else getFromDoubleMap (getEpochMap w) j l) \<and>
         inflight (forEach_trigger cs w) =
           inflight w @ map (\<lambda>c. Fetch c (Suc (epoch_of (getEpochMap w) (t_instanceId c) k))) cs"
  using assms unfolding forEach_trigger_def
proof (induction cs arbitrary: w)
  case Nil
  show ?case by simp
next
  case (Cons c cs)
  have dist: "distinct (map t_instanceId cs)" and urls: "\<forall>c \<in> set cs. t_url c = k"
    and fresh: "t_instanceId c \<notin> t_instanceId ` set cs" and url: "t_url c = k"
    using Cons.prems by auto
  note IH = Cons.IH [OF dist urls, of "trigger c w"]
  have same: "epoch_of (getEpochMap (trigger c w)) (t_instanceId c') k =
      epoch_of (getEpochMap w) (t_instanceId c') k" if "c' \<in> set cs" for c'
  proof -
    have "t_instanceId c' \<noteq> t_instanceId c"
      using that fresh by (metis imageI)
    then show ?thesis by (simp add: epoch_of_trigger)
  qed
  have infl: "map (\<lambda>c'. Fetch c' (Suc (epoch_of (getEpochMap (trigger c w)) (t_instanceId c') k))) cs =
      map (\<lambda>c'. Fetch c' (Suc (epoch_of (getEpochMap w) (t_instanceId c') k))) cs"
    using same by simp
  have look: "getFromDoubleMap (getEpochMap (foldl (\<lambda>w c. trigger c w) (trigger c w) cs)) j l =
      (if l = k \<and> j \<in> t_instanceId ` set (c # cs) then Some (Suc (epoch_of (getEpochMap w) j k))
       else getFromDoubleMap (getEpochMap w) j l)"
    using IH fresh url by (auto simp: trigger_lookup epoch_of_trigger)
  show ?case
    using look IH infl by (simp add: inflight_trigger url)
qed

lemma getAllFromUrl_instances:
  assumes "\<forall>e \<in> set m. \<forall>c. snd e k = Some c \<longrightarrow> t_instanceId c = fst e"
  shows "map t_instanceId (getAllFromUrl m k) = map fst (filter (\<lambda>e. snd e k \<noteq> None) m)"
  using assms by (induction m) (auto split: option.splits)

lemma registered_triggers:
  assumes "distinct (map fst m)"
    and "\<forall>j c. getFromDoubleMap m j k = Some c \<longrightarrow> t_instanceId c = j \<and> t_url c = k"
  shows "distinct (map t_instanceId (getAllFromUrl m k))"
    and "\<forall>c \<in> set (getAllFromUrl m k). t_url c = k"
    and "getFromDoubleMap m j k = Some c \<Longrightarrow> c \<in> set (getAllFromUrl m k)"
    and "j \<in> t_instanceId ` set (getAllFromUrl m k) \<longleftrightarrow> getFromDoubleMap m j k \<noteq> None"
proof -
  have entry: "t_instanceId c = fst e \<and> t_url c = k" if "e \<in> set m" "snd e k = Some c" for e c
  proof -
    have "(fst e, snd e) \<in> set m" using that by simp
    then have "getFromDoubleMap m (fst e) k = Some c"
      using getFromDoubleMap_distinct_iff [OF assms(1)] that(2) by blast
    with assms(2) show ?thesis by blast
  qed
  then have "map t_instanceId (getAllFromUrl m k) = map fst (filter (\<lambda>e. snd e k \<noteq> None) m)"
    by (intro getAllFromUrl_instances) blast
  then show "distinct (map t_instanceId (getAllFromUrl m k))"
    using assms(1) by (simp add: distinct_map_filter)
  show "\<forall>c \<in> set (getAllFromUrl m k). t_url c = k"
    using entry by (auto simp: in_getAllFromUrl_iff)
  show mem: "c \<in> set (getAllFromUrl m k)" if "getFromDoubleMap m j k = Some c" for j c
    using that getFromDoubleMap_distinct_iff [OF assms(1)]
    unfolding in_getAllFromUrl_iff by force
  show "j \<in> t_instanceId ` set (getAllFromUrl m k) \<longleftrightarrow> getFromDoubleMap m j k \<noteq> None"
  proof
    assume "j \<in> t_instanceId ` set (getAllFromUrl m k)"
    then obtain c e where "e \<in> set m" "snd e k = Some c" "t_instanceId c = j"
      by (auto simp: in_getAllFromUrl_iff)
    with entry have "(j, snd e) \<in> set m" "snd e k = Some c" by auto
    then show "getFromDoubleMap m j k \<noteq> None"
      using getFromDoubleMap_distinct_iff [OF assms(1), of j k c] by blast
  next
    assume "getFromDoubleMap m j k \<noteq> None"
    then obtain c where c: "getFromDoubleMap m j k = Some c" by blast
    with assms(2) have "t_instanceId c = j" by blast
    with mem [OF c] show "j \<in> t_instanceId ` set (getAllFromUrl m k)" by blast
  qed
qed

subsection \<open>The registries stay well formed\<close>

lemma post_frame [simp]:
  "getTriggerMap (post i url options body extra w) = getTriggerMap w"
  "getSetDataMap (post i url options body extra w) = getSetDataMap w"
  "getDataMap (post i url options body extra w) = getDataMap w"
  by (simp_all add: post_def split_beta Let_def incrementSetEpoch_frame split: option.splits)

lemma trigger_resume_registries [simp]:
  "getTriggerMap (trigger_resume c e out w) = getTriggerMap w"
  "getSetDataMap (trigger_resume c e out w) = getSetDataMap w"
  "distinct (map fst (getDataMap (trigger_resume c e out w))) = distinct (map fst (getDataMap w))"
  by (cases out; simp add: Let_def)+

lemma post_resume_registries [simp]:
  "getTriggerMap (post_resume p out w) = getTriggerMap w"
  "getSetDataMap (post_resume p out w) = getSetDataMap w"
  "map fst (getDataMap (post_resume p out w)) = map fst (getDataMap w)"
  by (cases out; simp add: Let_def overwrite_all_keys)+

lemma registry_ok_useGet:
  assumes "registry_ok w"
  shows "registry_ok (useGet i url options eff w)"
  using assms by (auto simp: registry_ok_def useGet_def Let_def)

lemma registry_ok_exec:
  assumes "registry_ok w"
  shows "registry_ok (exec ev w)"
proof (cases ev)
  case ClearCache
  then show ?thesis
    by (simp add: registry_ok_def clearCache_def getFromDoubleMap_def)
next
  case (UseGet i url options eff)
  then show ?thesis using registry_ok_useGet [OF assms] by simp
next
  case (TriggerGet url options)
  then show ?thesis using assms by (simp add: registry_ok_def triggerGet_def Let_def)
next
  case (UsePost i)
  then show ?thesis using assms by (simp add: registry_ok_def usePost_def split: option.splits)
next
  case (Post i url options body extra)
  then show ?thesis using assms by (simp add: registry_ok_def)
next
  case (Settle n out)
  show ?thesis
  proof (cases "n < length (inflight w)")
    case True
    let ?w = "w\<lparr> inflight := remove_nth n (inflight w) \<rparr>"
    have "registry_ok ?w" using assms by (simp add: registry_ok_def)
    then have "registry_ok (resume (inflight w ! n) out ?w)"
      by (cases "inflight w ! n") (simp_all add: registry_ok_def)
    then show ?thesis using Settle True by simp
  next
    case False
    then show ?thesis using Settle assms by simp
  qed
next
  case (Fire n)
  then show ?thesis using assms by (simp add: registry_ok_def)
qed

lemma registry_ok_initial: "registry_ok initial"
  by (simp add: registry_ok_def initial_def getFromDoubleMap_def)

lemma registry_ok_run:
  assumes "registry_ok w"
  shows "registry_ok (run evs w)"
  using assms unfolding run_def
  by (induction evs arbitrary: w) (simp_all add: registry_ok_exec)

lemma post_resume_rejected_getHooks:
  assumes "registry_ok w" and "\<not> stale (Posting p) w"
  shows "getHooks (post_resume p (Rejected err) w) j =
     (if truthy_optimistic (optimisticData (p_opts p)) \<and> truthy_string (getUrl (p_opts p)) then
        (case getFromDoubleMap (getDataMap w) j (key_of (p_currentGetUrl p)) of
           Some v \<Rightarrow>
             if getFromDoubleMap (getSetDataMap w) j (key_of (p_currentGetUrl p)) \<noteq> None
             then map_option (\<lambda>h. h\<lparr> g_data := Some v \<rparr>) (getHooks w j)
             else getHooks w j
         | None \<Rightarrow> getHooks w j)
      else getHooks w j)"
proof -
  let ?k = "key_of (p_currentGetUrl p)"
  let ?w = "setData_post (p_instanceId p)
              (SetValue (getFromDoubleMap (setDataMap w) (p_instanceId p) (p_url p)))
              (setIsPosting (p_instanceId p) False (setError_post (p_instanceId p) err w))"
  have dist: "distinct (map fst (getDataMap ?w))"
    and reg: "\<forall>j d. getFromDoubleMap (getSetDataMap ?w) j ?k = Some d \<longrightarrow> d = SetData j"
    using assms(1) by (simp_all add: registry_ok_def)
  have "getHooks (restore_each (getDataMap ?w) ?k ?w) j =
     (case getFromDoubleMap (getDataMap w) j ?k of
        Some v \<Rightarrow>
          if getFromDoubleMap (getSetDataMap w) j ?k \<noteq> None
          then map_option (\<lambda>h. h\<lparr> g_data := Some v \<rparr>) (getHooks w j)
          else getHooks w j
      | None \<Rightarrow> getHooks w j)"
  proof -
    have frame: "getHooks ?w = getHooks w" "getSetDataMap ?w = getSetDataMap w"
      "getDataMap ?w = getDataMap w"
      by simp_all
    have "getHooks (restore_each (getDataMap ?w) ?k ?w) j =
     (case getFromDoubleMap (getDataMap ?w) j ?k of
        Some v \<Rightarrow>
          if getFromDoubleMap (getSetDataMap ?w) j ?k \<noteq> None
          then map_option (\<lambda>h. h\<lparr> g_data := Some v \<rparr>) (getHooks ?w j)
          else getHooks ?w j
      | None \<Rightarrow> getHooks ?w j)"
      by (rule restore_each_getHooks [OF dist reg])
    then show ?thesis
      unfolding frame .
  qed
  then show ?thesis
    using assms(2) by (simp add: Let_def)
qed

lemmas world_defs =
  cached_world_def plain_get_def no_options_def

lemma post_resume_resolved_state:
  assumes "\<not> stale (Posting p) w"
  shows "post_resume p (Resolved result) w =
     (let w1 = setIsPosting (p_instanceId p) False
                 (setError_post (p_instanceId p) (Some Null)
                   ((setData_post (p_instanceId p) (SetValue result) w)
                      \<lparr> setDataMap := setInDoubleMap (setDataMap w) (p_instanceId p) (p_url p) result \<rparr>))
      in if \<not> truthy_string (getUrl (p_opts p)) then w1
         else if truthy_flag (useResponseData (p_opts p)) then
           (forEach_setData (getAllFromUrl (getSetDataMap w) (key_of (p_currentGetUrl p)))
              (SetValue result) w1)
             \<lparr> getDataMap := overwrite_all (getDataMap w) (key_of (p_currentGetUrl p)) result \<rparr>
         else forEach_trigger (getAllFromUrl (getTriggerMap w) (key_of (p_currentGetUrl p))) w1)"
  using assms by (simp add: Let_def)

lemma useGet_mounted_inflight:
  assumes "getHooks w j = Some h"
  shows "inflight (useGet j url options eff w) =
     inflight w @
       (if eff \<and> \<not> truthy (g_data h)
        then [Fetch \<lparr> t_instanceId = j, t_url = withQuery url (g_query options),
                      t_keepPreviousData = keepPreviousData options, t_data = g_data h \<rparr>
                (Suc (epoch_of (getEpochMap w) j (withQuery url (g_query options))))]
        else [])"
  using assms by (simp add: useGet_def Let_def inflight_trigger)

lemma useGet_truthy_mounted:
  assumes "getHooks w j = Some h" and "truthy (g_data h)"
  shows "getHooks (useGet j url options eff w) = getHooks w"
    and "inflight (useGet j url options eff w) = inflight w"
    and "getEpochMap (useGet j url options eff w) = getEpochMap w"
    and "timers (useGet j url options eff w) = timers w"
proof -
  have "(getHooks w)(j \<mapsto> h) = getHooks w"
    using assms(1) by (simp add: map_upd_triv)
  then show "getHooks (useGet j url options eff w) = getHooks w"
    using assms by (simp add: useGet_def Let_def)
  show "inflight (useGet j url options eff w) = inflight w"
    "getEpochMap (useGet j url options eff w) = getEpochMap w"
    "timers (useGet j url options eff w) = timers w"
    using assms by (simp_all add: useGet_def Let_def)
qed

lemma renders_with_truthy_data:
  assumes "\<forall>r \<in> set rs. \<exists>h. getHooks w (fst r) = Some h \<and> truthy (g_data h)"
  shows "getHooks (run (map (\<lambda>(j, url, options, runEffect). UseGet j url options runEffect) rs) w) = getHooks w \<and>
         inflight (run (map (\<lambda>(j, url, options, runEffect). UseGet j url options runEffect) rs) w) = inflight w \<and>
         getEpochMap (run (map (\<lambda>(j, url, options, runEffect). UseGet j url options runEffect) rs) w) = getEpochMap w \<and>
         timers (run (map (\<lambda>(j, url, options, runEffect). UseGet j url options runEffect) rs) w) = timers w"
  using assms unfolding run_def
proof (induction rs arbitrary: w)
  case Nil
  show ?case by simp
next
  case (Cons r rs)
  obtain j url options eff where r: "r = (j, url, options, eff)"
    by (cases r) auto
  obtain h where h: "getHooks w j = Some h" "truthy (g_data h)"
    using Cons.prems by (auto simp: r)
  note step = useGet_truthy_mounted [OF h, of url options eff]
  have "\<forall>r \<in> set rs. \<exists>h. getHooks (useGet j url options eff w) (fst r) = Some h \<and> truthy (g_data h)"
    using Cons.prems by (simp add: step(1))
  from Cons.IH [OF this] show ?case
    by (simp add: r step)
qed

section \<open>The properties\<close>

text \<open>The definitions a concrete run unfolds to.\<close>

lemmas eval_defs =
  run_def initial_def usePost_def post_def incrementSetEpoch_def incrementGetEpoch_def
  ensureInstance_def getFromDoubleMap_def assign_def override_def withQuery_def currentGetUrl_of_def
  setIsPosting_def setIsGetting_def remove_nth_def setData_post_def setError_post_def
  setData_get_def setError_get_def setInDoubleMap_def clearCache_def Let_def
  useGet_def triggerGet_def trigger_def forEach_trigger_def forEach_setData_def key_of_def
  URLSearchParams_toString_def urlencoded_def urlencoded_byte_def urlencoded_keep_def hex_digit_def
  overwrite_all_def epoch_of_def

text \<open>
  Claim C1.  A call of \<open>trigger\<close> or \<open>post\<close> goes in flight holding the epoch that the
  ledger increment at its start returned.  When its injected function settles, with a
  result or with an error, and the ledger entry of its instance and key no longer holds
  that epoch, the rest of the call leaves the whole state as it is: no state cell is set,
  no map is written, no timer is set and no other instance is reached.
\<close>

theorem stale_operation_has_no_effect:
  "inflight (trigger c w) =
     inflight w @ [Fetch c (fst (incrementGetEpoch (t_instanceId c) (t_url c) w))] \<and>
   (\<exists>p. inflight (post i url options body extraOptions w) = inflight w @ [Posting p] \<and>
        p_instanceId p = i \<and> p_url p = url \<and> p_epoch p = fst (incrementSetEpoch i url w)) \<and>
   (stale op w' \<longrightarrow> resume op out w' = w')"
proof (intro conjI impI)
  show "inflight (trigger c w) =
     inflight w @ [Fetch c (fst (incrementGetEpoch (t_instanceId c) (t_url c) w))]"
    by (simp add: inflight_trigger incrementGetEpoch_fst)
  show "\<exists>p. inflight (post i url options body extraOptions w) = inflight w @ [Posting p] \<and>
        p_instanceId p = i \<and> p_url p = url \<and> p_epoch p = fst (incrementSetEpoch i url w)"
    by (simp add: post_def split_beta Let_def incrementSetEpoch_frame split: option.splits)
  assume "stale op w'"
  then show "resume op out w' = w'"
    by (cases op; cases out) simp_all
qed

theorem stale_operation_has_no_effect_witness:
  "inflight two_fetches =
     [Fetch \<lparr> t_instanceId = ''i1'', t_url = ''/x'', t_keepPreviousData = False, t_data = Some Null \<rparr> 1,
      Fetch \<lparr> t_instanceId = ''i1'', t_url = ''/x'', t_keepPreviousData = False, t_data = Some Null \<rparr> 2] \<and>
   stale (inflight two_fetches ! 0) two_fetches \<and>
   resume (inflight two_fetches ! 0) (Resolved (Some (JNum 5))) two_fetches = two_fetches \<and>
   stale (inflight two_posts ! 0) two_posts \<and>
   resume (inflight two_posts ! 0) (Rejected (Some (JStr ''boom''))) two_posts = two_posts"
proof -
  have a: "inflight two_fetches =
     [Fetch \<lparr> t_instanceId = ''i1'', t_url = ''/x'', t_keepPreviousData = False, t_data = Some Null \<rparr> 1,
      Fetch \<lparr> t_instanceId = ''i1'', t_url = ''/x'', t_keepPreviousData = False, t_data = Some Null \<rparr> 2]"
    by (simp add: two_fetches_def plain_get_def eval_defs)
  have b: "stale (inflight two_fetches ! 0) two_fetches"
    unfolding a by (simp add: two_fetches_def plain_get_def eval_defs)
  have c: "stale (inflight two_posts ! 0) two_posts"
    by (simp add: two_posts_def no_options_def eval_defs)
  show ?thesis
    using a b c
      stale_operation_has_no_effect [of _ _ _ _ _ _ _ "inflight two_fetches ! 0" two_fetches "Resolved (Some (JNum 5))"]
      stale_operation_has_no_effect [of _ _ _ _ _ _ _ "inflight two_posts ! 0" two_posts "Rejected (Some (JStr ''boom''))"]
    by blast
qed

text \<open>
  Claim C2.  After \<open>clearCache\<close> the two registries, the read-side cache and the two
  ledgers are empty, but \<open>setDataMap\<close>, the write-side cache of last confirmed responses,
  is what it was: the function does not clear it.  In \<open>posted_world\<close> the response 7 of
  a confirmed post is still in that cache after the call, and a later optimistic post of
  the same instance that fails rolls its \<open>data\<close> back to that 7.
\<close>

theorem clearCache_keeps_write_cache:
  "setDataMap (clearCache w) = setDataMap w \<and>
   getTriggerMap (clearCache w) = [] \<and> getSetDataMap (clearCache w) = [] \<and>
   getDataMap (clearCache w) = [] \<and> getEpochMap (clearCache w) = [] \<and>
   setEpochMap (clearCache w) = [] \<and>
   getFromDoubleMap (setDataMap posted_world) ''p1'' ''/items'' = Some (JNum 7) \<and>
   getFromDoubleMap (setDataMap (clearCache posted_world)) ''p1'' ''/items'' = Some (JNum 7) \<and>
   postHooks (run after_clear posted_world) ''p1'' =
     Some \<lparr> p_data = Some (JNum 7), isPosting = False, p_error = Some (JStr ''boom'') \<rparr>"
  by (simp add: posted_world_def after_clear_def optimistic_items_def no_options_def eval_defs)

text \<open>
  Claim C7.  An increment returns the counter's value (0 when absent) plus one and stores
  it, for reads and for writes, so two increments in a row return consecutive numbers; a
  ledger with no entry reads 0, as both do after \<open>clearCache\<close>, so the first increment
  returns 1.  Over any events without \<open>ClearCache\<close> no
  counter of either ledger goes down, so an operation started later on the same instance
  and key gets a strictly greater epoch.
\<close>

theorem epoch_ledger_strictly_increasing:
  "fst (incrementGetEpoch i k w) = epoch_of (getEpochMap w) i k + 1 \<and>
   epoch_of (getEpochMap (snd (incrementGetEpoch i k w))) i k = epoch_of (getEpochMap w) i k + 1 \<and>
   fst (incrementSetEpoch i k w) = epoch_of (setEpochMap w) i k + 1 \<and>
   epoch_of (setEpochMap (snd (incrementSetEpoch i k w))) i k = epoch_of (setEpochMap w) i k + 1 \<and>
   fst (incrementGetEpoch i k (snd (incrementGetEpoch i k w))) = fst (incrementGetEpoch i k w) + 1 \<and>
   fst (incrementSetEpoch i k (snd (incrementSetEpoch i k w))) = fst (incrementSetEpoch i k w) + 1 \<and>
   epoch_of [] i k = 0 \<and>
   epoch_of (getEpochMap (clearCache w)) i k = 0 \<and>
   epoch_of (setEpochMap (clearCache w)) i k = 0 \<and>
   (ClearCache \<notin> set evs \<longrightarrow>
      epoch_of (getEpochMap w) i k \<le> epoch_of (getEpochMap (run evs w)) i k \<and>
      epoch_of (setEpochMap w) i k \<le> epoch_of (setEpochMap (run evs w)) i k \<and>
      fst (incrementGetEpoch i k w)
        < fst (incrementGetEpoch i k (run evs (snd (incrementGetEpoch i k w)))) \<and>
      fst (incrementSetEpoch i k w)
        < fst (incrementSetEpoch i k (run evs (snd (incrementSetEpoch i k w)))))"
proof -
  have "fst (incrementGetEpoch i k w)
        < fst (incrementGetEpoch i k (run evs (snd (incrementGetEpoch i k w))))"
    if "ClearCache \<notin> set evs"
    using run_epoch_mono [OF that, of "snd (incrementGetEpoch i k w)" i k]
    by (simp add: incrementGetEpoch_fst epoch_of_incrementGetEpoch)
  moreover have "fst (incrementSetEpoch i k w)
        < fst (incrementSetEpoch i k (run evs (snd (incrementSetEpoch i k w))))"
    if "ClearCache \<notin> set evs"
    using run_epoch_mono [OF that, of "snd (incrementSetEpoch i k w)" i k]
    by (simp add: incrementSetEpoch_fst epoch_of_incrementSetEpoch)
  moreover have "epoch_of [] i k = 0"
    by (simp add: epoch_of_def getFromDoubleMap_def)
  moreover have "epoch_of (getEpochMap (clearCache w)) i k = 0"
    "epoch_of (setEpochMap (clearCache w)) i k = 0"
    by (simp_all add: clearCache_def epoch_of_def getFromDoubleMap_def)
  ultimately show ?thesis
    using run_epoch_mono [of evs w i k]
    by (simp add: incrementGetEpoch_fst incrementSetEpoch_fst epoch_of_incrementGetEpoch
        epoch_of_incrementSetEpoch)
qed

theorem epoch_ledger_strictly_increasing_witness:
  "ClearCache \<notin> set busy_events \<and>
   fst (incrementGetEpoch ''i1'' ''/x'' initial) = 1 \<and>
   fst (incrementGetEpoch ''i1'' ''/x'' (snd (incrementGetEpoch ''i1'' ''/x'' initial))) = 2 \<and>
   fst (incrementGetEpoch ''i1'' ''/x'' initial)
     < fst (incrementGetEpoch ''i1'' ''/x'' (run busy_events (snd (incrementGetEpoch ''i1'' ''/x'' initial))))"
proof -
  have a: "ClearCache \<notin> set busy_events"
    by (simp add: busy_events_def)
  have b: "fst (incrementGetEpoch ''i1'' ''/x'' initial) = 1"
    by (simp add: eval_defs)
  have c: "fst (incrementGetEpoch ''i1'' ''/x'' (snd (incrementGetEpoch ''i1'' ''/x'' initial))) = 2"
    by (simp add: eval_defs)
  show ?thesis
    using a b c epoch_ledger_strictly_increasing [of "''i1''" "''/x''" initial busy_events]
    by blast
qed

text \<open>
  Claim C3, as amended.  \<open>post\<close> takes its epoch from the write ledger at the instance
  and the hook's address \<open>url\<close> as it was given, without the query; no other entry of the
  ledger changes.  The continuation compares the same entry: it leaves the state alone
  when that entry differs from its epoch, and publishes the error when it is equal.  The
  address extended with the serialised query, \<open>currentUrl\<close>, is only what the poster is
  called with.
\<close>

theorem post_epoch_keyed_by_hook_address:
  "(\<exists>p. inflight (post i url options body extraOptions w) = inflight w @ [Posting p] \<and>
        p_instanceId p = i \<and> p_url p = url \<and>
        p_epoch p = epoch_of (setEpochMap w) i url + 1 \<and>
        p_currentUrl p = withQuery url (query (assign options extraOptions))) \<and>
   getFromDoubleMap (setEpochMap (post i url options body extraOptions w)) j l =
     (if j = i \<and> l = url then Some (epoch_of (setEpochMap w) i url + 1)
      else getFromDoubleMap (setEpochMap w) j l) \<and>
   (getFromDoubleMap (setEpochMap w') (p_instanceId p) (p_url p) \<noteq> Some (p_epoch p) \<longrightarrow>
      post_resume p out w' = w') \<and>
   (getFromDoubleMap (setEpochMap w') (p_instanceId p) (p_url p) = Some (p_epoch p) \<longrightarrow>
      map_option p_error (postHooks (post_resume p (Rejected err) w') (p_instanceId p)) =
        map_option (\<lambda>h. err) (postHooks w' (p_instanceId p)))"
proof (intro conjI impI)
  show "\<exists>p. inflight (post i url options body extraOptions w) = inflight w @ [Posting p] \<and>
        p_instanceId p = i \<and> p_url p = url \<and>
        p_epoch p = epoch_of (setEpochMap w) i url + 1 \<and>
        p_currentUrl p = withQuery url (query (assign options extraOptions))"
    by (simp add: post_inflight)
  show "getFromDoubleMap (setEpochMap (post i url options body extraOptions w)) j l =
     (if j = i \<and> l = url then Some (epoch_of (setEpochMap w) i url + 1)
      else getFromDoubleMap (setEpochMap w) j l)"
    by (simp add: post_setEpochMap incrementSetEpoch_lookup)
next
  assume "getFromDoubleMap (setEpochMap w') (p_instanceId p) (p_url p) \<noteq> Some (p_epoch p)"
  then show "post_resume p out w' = w'"
    by (cases out) simp_all
next
  assume "getFromDoubleMap (setEpochMap w') (p_instanceId p) (p_url p) = Some (p_epoch p)"
  then have "\<not> stale (Posting p) w'" by simp
  from post_resume_rejected_postHooks [OF this, of err]
  show "map_option p_error (postHooks (post_resume p (Rejected err) w') (p_instanceId p)) =
        map_option (\<lambda>h. err) (postHooks w' (p_instanceId p))"
    by (simp add: option.map_comp comp_def)
qed

theorem post_epoch_keyed_by_hook_address_witness:
  "getFromDoubleMap (setEpochMap two_queries) ''p1'' ''/items'' \<noteq> Some 1 \<and>
   post_resume \<lparr> p_instanceId = ''p1'', p_url = ''/items'', p_epoch = 1, p_opts = query_a1,
                p_currentUrl = ''/items?a=1'', p_currentGetUrl = None, p_body = None \<rparr>
     (Resolved (Some (JNum 1))) two_queries = two_queries \<and>
   getFromDoubleMap (setEpochMap two_queries) ''p1'' ''/items'' = Some 2 \<and>
   map_option p_error (postHooks (post_resume
       \<lparr> p_instanceId = ''p1'', p_url = ''/items'', p_epoch = 2, p_opts = query_a2,
         p_currentUrl = ''/items?a=2'', p_currentGetUrl = None, p_body = None \<rparr>
       (Rejected (Some (JStr ''boom''))) two_queries) ''p1'') = Some (Some (JStr ''boom''))"
proof -
  have a: "getFromDoubleMap (setEpochMap two_queries) ''p1'' ''/items'' = Some 2"
    by (simp add: two_queries_def query_a1_def query_a2_def no_options_def eval_defs)
  have b: "map_option (\<lambda>h. Some (JStr ''boom'')) (postHooks two_queries ''p1'') = Some (Some (JStr ''boom''))"
    by (simp add: two_queries_def query_a1_def query_a2_def no_options_def eval_defs)
  show ?thesis
    using a b
      post_epoch_keyed_by_hook_address [of _ _ _ _ _ _ _ _ two_queries
        "\<lparr> p_instanceId = ''p1'', p_url = ''/items'', p_epoch = 1, p_opts = query_a1,
           p_currentUrl = ''/items?a=1'', p_currentGetUrl = None, p_body = None \<rparr>"
        "Resolved (Some (JNum 1))"]
      post_epoch_keyed_by_hook_address [of _ _ _ _ _ _ _ _ two_queries
        "\<lparr> p_instanceId = ''p1'', p_url = ''/items'', p_epoch = 2, p_opts = query_a2,
           p_currentUrl = ''/items?a=2'', p_currentGetUrl = None, p_body = None \<rparr>"
        _ "Some (JStr ''boom'')"]
    by simp
qed

text \<open>
  As the claim states it, the epoch would be taken at the address extended with the
  query.  A post to \<^verbatim>\<open>/items\<close> with the query \<^verbatim>\<open>a=1\<close> calls the poster with \<^verbatim>\<open>/items?a=1\<close>
  but leaves the ledger without an entry for that key and with epoch 1 at \<^verbatim>\<open>/items\<close>;
  and a second post with the query \<^verbatim>\<open>a=2\<close> makes the first one stale, whose response
  then changes nothing.
\<close>

theorem post_epoch_keyed_by_hook_address_counterexample:
  "getFromDoubleMap (setEpochMap queried_post) ''p1'' ''/items?a=1'' = None \<and>
   getFromDoubleMap (setEpochMap queried_post) ''p1'' ''/items'' = Some 1 \<and>
   inflight queried_post =
     [Posting \<lparr> p_instanceId = ''p1'', p_url = ''/items'', p_epoch = 1, p_opts = query_a1,
                p_currentUrl = ''/items?a=1'', p_currentGetUrl = None, p_body = None \<rparr>] \<and>
   inflight two_queries =
     [Posting \<lparr> p_instanceId = ''p1'', p_url = ''/items'', p_epoch = 1, p_opts = query_a1,
                p_currentUrl = ''/items?a=1'', p_currentGetUrl = None, p_body = None \<rparr>,
      Posting \<lparr> p_instanceId = ''p1'', p_url = ''/items'', p_epoch = 2, p_opts = query_a2,
                p_currentUrl = ''/items?a=2'', p_currentGetUrl = None, p_body = None \<rparr>] \<and>
   getFromDoubleMap (setEpochMap two_queries) ''p1'' ''/items?a=1'' = None \<and>
   postHooks (exec (Settle 0 (Resolved (Some (JNum 1)))) two_queries) = postHooks two_queries"
  by (simp add: queried_post_def two_queries_def query_a1_def query_a2_def no_options_def eval_defs)

text \<open>
  Claim C8.  On the first render of \<open>useGet\<close> by an instance that has no entry in the
  read-side cache yet: with \<open>keepPreviousData\<close> the initial \<open>data\<close> is the first value that
  the iteration over the cache finds under the key, a value that another instance cached
  (every entry before it has none for the key), and \<^verbatim>\<open>null\<close> when no entry has one; without
  \<open>keepPreviousData\<close> it is \<^verbatim>\<open>null\<close>; and \<open>isGetting\<close> starts as the negation of the
  truthiness of that \<open>data\<close>.  A cached value is one that is not \<^verbatim>\<open>undefined\<close>.
\<close>

theorem useGet_initial_state:
  assumes "getHooks w i = None" and "i \<notin> fst ` set (getDataMap w)"
  shows "\<exists>h. getHooks (useGet i url options runEffect w) i = Some h \<and>
     isGetting h = (\<not> truthy (g_data h)) \<and>
     (if keepPreviousData options then
        (case getAnyFromUrl (getDataMap w) (withQuery url (g_query options)) of
           Some v \<Rightarrow>
             g_data h = Some v \<and>
             (\<exists>pre j im post. getDataMap w = pre @ (j, im) # post \<and> j \<noteq> i \<and>
                 im (withQuery url (g_query options)) = Some v \<and>
                 (\<forall>e \<in> set pre. snd e (withQuery url (g_query options)) = None))
         | None \<Rightarrow>
             g_data h = Some Null \<and>
             (\<forall>e \<in> set (getDataMap w). snd e (withQuery url (g_query options)) = None))
      else g_data h = Some Null)"
proof -
  let ?k = "withQuery url (g_query options)"
  let ?d = "if keepPreviousData options then nullish (getAnyFromUrl (getDataMap w) ?k) (Some Null) else Some Null"
  let ?h = "\<lparr> g_data = ?d, isGetting = \<not> truthy ?d, g_error = Some Null \<rparr>"
  have h: "getHooks (useGet i url options runEffect w) i = Some ?h"
    using useGet_getHooks_first [OF assms(1)] by (simp add: Let_def)
  have "case getAnyFromUrl (getDataMap w) ?k of
           Some v \<Rightarrow>
             nullish (getAnyFromUrl (getDataMap w) ?k) (Some Null) = Some v \<and>
             (\<exists>pre j im post. getDataMap w = pre @ (j, im) # post \<and> j \<noteq> i \<and>
                 im ?k = Some v \<and> (\<forall>e \<in> set pre. snd e ?k = None))
         | None \<Rightarrow>
             nullish (getAnyFromUrl (getDataMap w) ?k) (Some Null) = Some Null \<and>
             (\<forall>e \<in> set (getDataMap w). snd e ?k = None)"
  proof (cases "getAnyFromUrl (getDataMap w) ?k")
    case None
    then show ?thesis by (simp add: getAnyFromUrl_None_iff [symmetric])
  next
    case (Some v)
    then obtain pre j im post where
      split: "getDataMap w = pre @ (j, im) # post" "im ?k = Some v" "\<forall>e \<in> set pre. snd e ?k = None"
      unfolding getAnyFromUrl_Some_iff by blast
    then have "j \<in> fst ` set (getDataMap w)" by force
    with assms(2) have "j \<noteq> i" by blast
    with split Some show ?thesis by (auto simp: nullish_Some)
  qed
  then show ?thesis
    using h by (auto split: option.splits)
qed

theorem useGet_initial_state_witness:
  "getHooks cached_world ''i4'' = None \<and> ''i4'' \<notin> fst ` set (getDataMap cached_world) \<and>
   getAnyFromUrl (getDataMap cached_world) ''/x'' = Some (JStr ''first'') \<and>
   (\<exists>h. getHooks (useGet ''i4'' ''/x'' keep_get True cached_world) ''i4'' = Some h \<and>
        isGetting h = False \<and> g_data h = Some (JStr ''first'')) \<and>
   (\<exists>h. getHooks (useGet ''i4'' ''/y'' keep_get True cached_world) ''i4'' = Some h \<and>
        isGetting h = True \<and> g_data h = Some Null) \<and>
   (\<exists>h. getHooks (useGet ''i4'' ''/x'' plain_get True cached_world) ''i4'' = Some h \<and>
        isGetting h = True \<and> g_data h = Some Null)"
proof -
  have a: "getHooks cached_world ''i4'' = None"
    by (simp add: cached_world_def plain_get_def eval_defs)
  have b: "''i4'' \<notin> fst ` set (getDataMap cached_world)"
    by (simp add: cached_world_def plain_get_def eval_defs)
  have c: "getAnyFromUrl (getDataMap cached_world) ''/x'' = Some (JStr ''first'')"
    by (simp add: cached_world_def plain_get_def eval_defs)
  have d: "getAnyFromUrl (getDataMap cached_world) ''/y'' = None"
    by (simp add: cached_world_def plain_get_def eval_defs)
  show ?thesis
    using a b c d
      useGet_initial_state [OF a b, of "''/x''" keep_get True]
      useGet_initial_state [OF a b, of "''/y''" keep_get True]
      useGet_initial_state [OF a b, of "''/x''" plain_get True]
    by (auto simp: keep_get_def plain_get_def withQuery_def)
qed

text \<open>
  Claim C9.  When the merged options hold a falsy value as \<open>optimisticData\<close> (0, the empty
  string, \<^verbatim>\<open>false\<close> or \<^verbatim>\<open>null\<close>), \<open>post\<close> does what it does with \<open>optimisticData\<close> left out
  of both option objects: the two calls end in the same state but for the options the
  suspended call remembers, and the two suspended calls continue alike on every outcome.
  \<open>isPosting\<close> is set at the start, no \<open>data\<close> of the instance or of a subscriber is
  touched, and a failure publishes the error and clears \<open>isPosting\<close> without a rollback.
\<close>

theorem falsy_optimisticData_is_ignored:
  assumes "optimisticData (assign options extraOptions) = Some (OptValue v)"
    and "\<not> truthy (Some v)"
  shows "\<exists>p. inflight (post i url options body extraOptions w) = inflight w @ [Posting p] \<and>
     post i url (without_optimistic options) body (map_option omit_optimistic extraOptions) w =
       (post i url options body extraOptions w)
         \<lparr> inflight := inflight w @ [Posting (p\<lparr> p_opts := without_optimistic (p_opts p) \<rparr>)] \<rparr> \<and>
     (\<forall>out w'. post_resume p out w' =
                post_resume (p\<lparr> p_opts := without_optimistic (p_opts p) \<rparr>) out w') \<and>
     postHooks (post i url options body extraOptions w) =
       (postHooks w)(i := map_option (\<lambda>h. h\<lparr> isPosting := True \<rparr>) (postHooks w i)) \<and>
     getHooks (post i url options body extraOptions w) = getHooks w \<and>
     (\<forall>err w'. \<not> stale (Posting p) w' \<longrightarrow>
        post_resume p (Rejected err) w' = setIsPosting i False (setError_post i err w'))"
proof -
  let ?opts = "assign options extraOptions"
  let ?p = "\<lparr> p_instanceId = i, p_url = url, p_epoch = Suc (epoch_of (setEpochMap w) i url),
              p_opts = ?opts, p_currentUrl = withQuery url (query ?opts),
              p_currentGetUrl = currentGetUrl_of ?opts, p_body = body \<rparr>"
  have falsy: "\<not> truthy_optimistic (optimisticData ?opts)"
    using assms by simp
  have falsy': "\<not> truthy_optimistic (optimisticData (assign (without_optimistic options)
      (map_option omit_optimistic extraOptions)))"
    by (simp add: assign_without_optimistic)
  have start: "post i url options body extraOptions w =
      (setIsPosting i True (snd (incrementSetEpoch i url w)))\<lparr> inflight := inflight w @ [Posting ?p] \<rparr>"
    by (rule post_not_optimistic [OF falsy])
  have start': "post i url (without_optimistic options) body (map_option omit_optimistic extraOptions) w =
      (setIsPosting i True (snd (incrementSetEpoch i url w)))
        \<lparr> inflight := inflight w @ [Posting (?p\<lparr> p_opts := without_optimistic (p_opts ?p) \<rparr>)] \<rparr>"
    unfolding post_not_optimistic [OF falsy'] by (simp add: assign_without_optimistic)
  have 1: "inflight (post i url options body extraOptions w) = inflight w @ [Posting ?p]"
    unfolding start by simp
  have 2: "post i url (without_optimistic options) body (map_option omit_optimistic extraOptions) w =
       (post i url options body extraOptions w)
         \<lparr> inflight := inflight w @ [Posting (?p\<lparr> p_opts := without_optimistic (p_opts ?p) \<rparr>)] \<rparr>"
    unfolding start' start by simp
  have 3: "\<forall>out w'. post_resume ?p out w' =
                post_resume (?p\<lparr> p_opts := without_optimistic (p_opts ?p) \<rparr>) out w'"
    using post_resume_not_optimistic [of ?p] falsy by simp
  have 4: "postHooks (post i url options body extraOptions w) =
       (postHooks w)(i := map_option (\<lambda>h. h\<lparr> isPosting := True \<rparr>) (postHooks w i))"
    unfolding start by (simp add: setIsPosting_def incrementSetEpoch_frame)
  have 5: "getHooks (post i url options body extraOptions w) = getHooks w"
    unfolding start by (simp add: incrementSetEpoch_frame)
  have 6: "\<forall>err w'. \<not> stale (Posting ?p) w' \<longrightarrow>
        post_resume ?p (Rejected err) w' = setIsPosting i False (setError_post i err w')"
    using falsy by (simp add: Let_def)
  show ?thesis
    using 1 2 3 4 5 6 by blast
qed

theorem falsy_optimisticData_is_ignored_witness:
  "optimisticData (assign falsy_optimistic None) = Some (OptValue (JNum 0)) \<and>
   \<not> truthy (Some (JNum 0)) \<and>
   postHooks (post ''p1'' ''/x'' falsy_optimistic None None (usePost ''p1'' cached_world)) ''p1'' =
     Some \<lparr> p_data = Some Null, isPosting = True, p_error = Some Null \<rparr> \<and>
   getHooks (post ''p1'' ''/x'' falsy_optimistic None None (usePost ''p1'' cached_world)) =
     getHooks (usePost ''p1'' cached_world)"
proof -
  have a: "optimisticData (assign falsy_optimistic None) = Some (OptValue (JNum 0))"
    by (simp add: assign_def falsy_optimistic_def no_options_def)
  have b: "\<not> truthy (Some (JNum 0))" by simp
  have c: "postHooks (usePost ''p1'' cached_world) ''p1'' =
      Some \<lparr> p_data = Some Null, isPosting = False, p_error = Some Null \<rparr>"
    by (simp add: cached_world_def plain_get_def eval_defs)
  show ?thesis
    using a b c
      falsy_optimisticData_is_ignored [OF a b, of "''p1''" "''/x''" None "usePost ''p1'' cached_world"]
    by auto
qed




text \<open>
  Claim C6.  The retry is meant for an instance that holds no data, and the \<^verbatim>\<open>catch\<close>
  branch tests \<^verbatim>\<open>!data\<close>; but \<^verbatim>\<open>data\<close> there is the variable of the render that created
  the running \<open>trigger\<close>, not the instance's state.  In \<open>pushed_while_fetching\<close> the first
  fetch of \<^verbatim>\<open>i1\<close> (epoch 1) is still in flight when a post with \<open>useResponseData\<close> pushes its
  response to \<^verbatim>\<open>i1\<close>.  The instance now holds data, and the effect of its next render,
  which tests the live value, starts nothing.  The fetch then fails, not stale: the error
  is published and \<open>isGetting\<close> cleared, and a retry is set for 1000 ms later although
  the instance holds data.
\<close>

theorem trigger_retry_ignores_live_data:
  "inflight pushed_while_fetching =
     [Fetch \<lparr> t_instanceId = ''i1'', t_url = ''/x'', t_keepPreviousData = False, t_data = Some Null \<rparr> 1] \<and>
   getFromDoubleMap (getEpochMap pushed_while_fetching) ''i1'' ''/x'' = Some 1 \<and>
   getHooks pushed_while_fetching ''i1'' =
     Some \<lparr> g_data = Some (JStr ''fresh''), isGetting = True, g_error = Some Null \<rparr> \<and>
   timers pushed_while_fetching = [] \<and>
   inflight (useGet ''i1'' ''/x'' plain_get True pushed_while_fetching) = inflight pushed_while_fetching \<and>
   getHooks (exec (Settle 0 (Rejected (Some (JStr ''down'')))) pushed_while_fetching) ''i1'' =
     Some \<lparr> g_data = Some (JStr ''fresh''), isGetting = False, g_error = Some (JStr ''down'') \<rparr> \<and>
   timers (exec (Settle 0 (Rejected (Some (JStr ''down'')))) pushed_while_fetching) =
     [(1000, \<lparr> t_instanceId = ''i1'', t_url = ''/x'', t_keepPreviousData = False, t_data = Some Null \<rparr>)]"
  by (simp add: pushed_while_fetching_def respond_x_def plain_get_def no_options_def eval_defs)

text \<open>
  Claim C4, as amended.  When a post that applied an optimistic update fails and is not
  stale, the posting instance's \<open>data\<close> becomes the last confirmed response cached for it
  under the hook's address \<open>url\<close>, without the query (the key under which \<open>post\<close> caches
  every response of the instance, whatever the query of the call), its error is published
  and \<open>isPosting\<close> cleared.  With a related read key, every instance that has
  a dispatcher registered for that key and a saved value of its own for it gets that own
  value back; an instance without a saved value, or without a registration, keeps what it
  has.  Without a related read key no reading instance is touched.  Neither cache is
  written.
\<close>

theorem optimistic_rollback_per_instance:
  assumes "registry_ok w"
    and "\<not> stale (Posting p) w"
    and "truthy_optimistic (optimisticData (p_opts p))"
  shows "postHooks (post_resume p (Rejected err) w) =
     (postHooks w)(p_instanceId p :=
        map_option (\<lambda>h. \<lparr> p_data = getFromDoubleMap (setDataMap w) (p_instanceId p) (p_url p),
                            isPosting = False, p_error = err \<rparr>)
          (postHooks w (p_instanceId p))) \<and>
   (\<forall>j. getHooks (post_resume p (Rejected err) w) j =
      (if truthy_string (getUrl (p_opts p)) then
         (case getFromDoubleMap (getDataMap w) j (key_of (p_currentGetUrl p)) of
            Some v \<Rightarrow>
              if getFromDoubleMap (getSetDataMap w) j (key_of (p_currentGetUrl p)) \<noteq> None
              then map_option (\<lambda>h. h\<lparr> g_data := Some v \<rparr>) (getHooks w j)
              else getHooks w j
          | None \<Rightarrow> getHooks w j)
       else getHooks w j)) \<and>
   getDataMap (post_resume p (Rejected err) w) = getDataMap w \<and>
   setDataMap (post_resume p (Rejected err) w) = setDataMap w"
proof (intro conjI allI)
  show "postHooks (post_resume p (Rejected err) w) =
     (postHooks w)(p_instanceId p :=
        map_option (\<lambda>h. \<lparr> p_data = getFromDoubleMap (setDataMap w) (p_instanceId p) (p_url p),
                            isPosting = False, p_error = err \<rparr>)
          (postHooks w (p_instanceId p)))"
    using post_resume_rejected_postHooks [OF assms(2), of err] assms(3) by simp
  show "getHooks (post_resume p (Rejected err) w) j =
      (if truthy_string (getUrl (p_opts p)) then
         (case getFromDoubleMap (getDataMap w) j (key_of (p_currentGetUrl p)) of
            Some v \<Rightarrow>
              if getFromDoubleMap (getSetDataMap w) j (key_of (p_currentGetUrl p)) \<noteq> None
              then map_option (\<lambda>h. h\<lparr> g_data := Some v \<rparr>) (getHooks w j)
              else getHooks w j
          | None \<Rightarrow> getHooks w j)
       else getHooks w j)" for j
    using post_resume_rejected_getHooks [OF assms(1,2), of err j] assms(3) by simp
  show "getDataMap (post_resume p (Rejected err) w) = getDataMap w"
    by (simp add: Let_def)
  show "setDataMap (post_resume p (Rejected err) w) = setDataMap w"
    by (simp add: Let_def)
qed

theorem optimistic_rollback_per_instance_witness:
  "registry_ok optimistic_three \<and>
   inflight optimistic_three ! 1 =
     Posting \<lparr> p_instanceId = ''p1'', p_url = ''/x'', p_epoch = 1, p_opts = optimistic_x,
               p_currentUrl = ''/x'', p_currentGetUrl = Some ''/x'', p_body = None \<rparr> \<and>
   \<not> stale (inflight optimistic_three ! 1) optimistic_three \<and>
   truthy_optimistic (optimisticData optimistic_x) \<and>
   map (\<lambda>j. map_option g_data (getHooks optimistic_three j)) [''i1'', ''i2'', ''i3'', ''i5''] =
     [Some (Some (JNum 3)), Some (Some (JStr ''guess'')), Some (Some (JStr ''guess'')),
      Some (Some (JStr ''guess''))] \<and>
   map (\<lambda>j. map_option g_data
          (getHooks (resume (inflight optimistic_three ! 1) (Rejected (Some (JStr ''boom'')))
             optimistic_three) j)) [''i1'', ''i2'', ''i3'', ''i5''] =
     [Some (Some (JNum 3)), Some (Some (JStr ''first'')), Some (Some (JStr ''second'')),
      Some (Some (JStr ''guess''))]"
proof -
  let ?p = "\<lparr> p_instanceId = ''p1'', p_url = ''/x'', p_epoch = 1, p_opts = optimistic_x,
               p_currentUrl = ''/x'', p_currentGetUrl = Some ''/x'', p_body = None \<rparr>"
  have ok: "registry_ok optimistic_three"
    unfolding optimistic_three_def cached_world_def
    by (intro registry_ok_run registry_ok_initial)
  have p: "inflight optimistic_three ! 1 = Posting ?p"
    by (simp add: optimistic_three_def optimistic_x_def world_defs eval_defs)
  have ns: "\<not> stale (Posting ?p) optimistic_three"
    by (simp add: optimistic_three_def optimistic_x_def world_defs eval_defs)
  have opt: "truthy_optimistic (optimisticData (p_opts ?p))"
    by (simp add: optimistic_x_def no_options_def)
  have k: "key_of (p_currentGetUrl ?p) = ''/x''" "truthy_string (getUrl (p_opts ?p)) = True"
    by (simp_all add: key_of_def optimistic_x_def no_options_def)
  have before: "map (\<lambda>j. getHooks optimistic_three j) [''i1'', ''i2'', ''i3'', ''i5''] =
     [Some \<lparr> g_data = Some (JNum 3), isGetting = False, g_error = Some Null \<rparr>,
      Some \<lparr> g_data = Some (JStr ''guess''), isGetting = False, g_error = Some Null \<rparr>,
      Some \<lparr> g_data = Some (JStr ''guess''), isGetting = False, g_error = Some Null \<rparr>,
      Some \<lparr> g_data = Some (JStr ''guess''), isGetting = True, g_error = Some Null \<rparr>]"
    by (simp add: optimistic_three_def optimistic_x_def world_defs eval_defs)
  have cache: "map (\<lambda>j. getFromDoubleMap (getDataMap optimistic_three) j ''/x'') [''i1'', ''i2'', ''i3'', ''i5''] =
     [None, Some (JStr ''first''), Some (JStr ''second''), None]"
    by (simp add: optimistic_three_def optimistic_x_def world_defs eval_defs)
  have regd: "map (\<lambda>j. getFromDoubleMap (getSetDataMap optimistic_three) j ''/x'') [''i1'', ''i2'', ''i3'', ''i5''] =
     [None, Some (SetData ''i2''), Some (SetData ''i3''), Some (SetData ''i5'')]"
    by (simp add: optimistic_three_def optimistic_x_def world_defs eval_defs)
  note rb = optimistic_rollback_per_instance [OF ok ns opt, of "Some (JStr ''boom'')",
      THEN conjunct2, THEN conjunct1, rule_format]
  have after: "getHooks (post_resume ?p (Rejected (Some (JStr ''boom''))) optimistic_three) j =
     (case getFromDoubleMap (getDataMap optimistic_three) j ''/x'' of
        Some v \<Rightarrow>
          if getFromDoubleMap (getSetDataMap optimistic_three) j ''/x'' \<noteq> None
          then map_option (\<lambda>h. h\<lparr> g_data := Some v \<rparr>) (getHooks optimistic_three j)
          else getHooks optimistic_three j
      | None \<Rightarrow> getHooks optimistic_three j)" for j
    using rb [of j] unfolding k if_True .
  have stale_p: "\<not> stale (inflight optimistic_three ! 1) optimistic_three"
    unfolding p by (rule ns)
  show ?thesis
    unfolding p resume.simps after
    using ok ns opt before cache regd by simp
qed

text \<open>
  As the claim states it, the poster's \<open>data\<close> would go back to the value cached for the
  post key, the address extended with the query.  In \<open>rollback_across_queries\<close> a post to
  \<^verbatim>\<open>/items\<close> with \<^verbatim>\<open>a=1\<close> has been confirmed with 7 and an optimistic one with \<^verbatim>\<open>a=2\<close>
  is in flight: nothing is cached under \<^verbatim>\<open>/items?a=2\<close> or \<^verbatim>\<open>/items?a=1\<close>, and when the
  post fails \<open>data\<close> becomes 7, the response of the call with the other query.
\<close>

theorem optimistic_rollback_per_instance_counterexample:
  "inflight rollback_across_queries =
     [Posting \<lparr> p_instanceId = ''p1'', p_url = ''/items'', p_epoch = 2, p_opts = optimistic_a2,
                p_currentUrl = ''/items?a=2'', p_currentGetUrl = None, p_body = None \<rparr>] \<and>
   getFromDoubleMap (setDataMap rollback_across_queries) ''p1'' ''/items?a=2'' = None \<and>
   getFromDoubleMap (setDataMap rollback_across_queries) ''p1'' ''/items?a=1'' = None \<and>
   getFromDoubleMap (setDataMap rollback_across_queries) ''p1'' ''/items'' = Some (JNum 7) \<and>
   postHooks rollback_across_queries ''p1'' =
     Some \<lparr> p_data = Some (JStr ''guess''), isPosting = False, p_error = Some Null \<rparr> \<and>
   postHooks (exec (Settle 0 (Rejected (Some (JStr ''boom'')))) rollback_across_queries) ''p1'' =
     Some \<lparr> p_data = Some (JNum 7), isPosting = False, p_error = Some (JStr ''boom'') \<rparr>"
  by (simp add: rollback_across_queries_def optimistic_a2_def query_a1_def no_options_def eval_defs)

text \<open>
  Claim C5, as amended.  When a post with a related read key succeeds and is not stale:
  with \<open>useResponseData\<close>, every instance with a dispatcher registered for the read key
  gets the response as its \<open>data\<close> and no other reading instance changes, the read-side
  cache holds the response under the read key for every instance that has an entry in it
  and is otherwise as before, and the post itself starts no fetch: the operations in
  flight, the timers and the read ledger are unchanged.  When the response is truthy the
  renders of the subscribers that follow start no fetch either, however many and with
  whatever options; when the response is falsy and the effect of a subscriber's next
  render runs, its \<^verbatim>\<open>if (!data) trigger()\<close> starts one fetch.  Without
  \<open>useResponseData\<close>, the read-side cache is unchanged and no \<open>data\<close> is set; for every
  instance with a \<open>trigger\<close> registered for the read key that \<open>trigger\<close> starts, taking
  the next epoch of the instance and key and going in flight, and nothing else starts.
\<close>

theorem post_success_propagation:
  assumes "registry_ok w"
    and "\<not> stale (Posting p) w"
    and "truthy_string (getUrl (p_opts p))"
  shows "(truthy_flag (useResponseData (p_opts p)) \<longrightarrow>
      (\<forall>j. getHooks (post_resume p (Resolved result) w) j =
         (if getFromDoubleMap (getSetDataMap w) j (key_of (p_currentGetUrl p)) \<noteq> None
          then map_option (\<lambda>h. h\<lparr> g_data := result \<rparr>) (getHooks w j)
          else getHooks w j)) \<and>
      (\<forall>j l. getFromDoubleMap (getDataMap (post_resume p (Resolved result) w)) j l =
         (if l = key_of (p_currentGetUrl p) \<and> j \<in> fst ` set (getDataMap w) then result
          else getFromDoubleMap (getDataMap w) j l)) \<and>
      map fst (getDataMap (post_resume p (Resolved result) w)) = map fst (getDataMap w) \<and>
      inflight (post_resume p (Resolved result) w) = inflight w \<and>
      timers (post_resume p (Resolved result) w) = timers w \<and>
      getEpochMap (post_resume p (Resolved result) w) = getEpochMap w \<and>
      (\<forall>j h url options runEffect.
         getFromDoubleMap (getSetDataMap w) j (key_of (p_currentGetUrl p)) \<noteq> None \<and>
         getHooks w j = Some h \<longrightarrow>
         inflight (useGet j url options runEffect (post_resume p (Resolved result) w)) =
           inflight w @
             (if runEffect \<and> \<not> truthy result
              then [Fetch \<lparr> t_instanceId = j, t_url = withQuery url (g_query options),
                            t_keepPreviousData = keepPreviousData options, t_data = result \<rparr>
                      (epoch_of (getEpochMap w) j (withQuery url (g_query options)) + 1)]
              else [])) \<and>
      (truthy result \<longrightarrow>
         (\<forall>rs. (\<forall>r \<in> set rs.
                  getFromDoubleMap (getSetDataMap w) (fst r) (key_of (p_currentGetUrl p)) \<noteq> None \<and>
                  getHooks w (fst r) \<noteq> None) \<longrightarrow>
            inflight (run (map (\<lambda>(j, url, options, runEffect). UseGet j url options runEffect) rs)
                       (post_resume p (Resolved result) w)) = inflight w \<and>
            getEpochMap (run (map (\<lambda>(j, url, options, runEffect). UseGet j url options runEffect) rs)
                       (post_resume p (Resolved result) w)) = getEpochMap w \<and>
            timers (run (map (\<lambda>(j, url, options, runEffect). UseGet j url options runEffect) rs)
                       (post_resume p (Resolved result) w)) = timers w))) \<and>
   (\<not> truthy_flag (useResponseData (p_opts p)) \<longrightarrow>
      getDataMap (post_resume p (Resolved result) w) = getDataMap w \<and>
      (\<forall>j. map_option g_data (getHooks (post_resume p (Resolved result) w) j) =
           map_option g_data (getHooks w j)) \<and>
      (\<forall>j c. getFromDoubleMap (getTriggerMap w) j (key_of (p_currentGetUrl p)) = Some c \<longrightarrow>
         getFromDoubleMap (getEpochMap (post_resume p (Resolved result) w)) j (key_of (p_currentGetUrl p)) =
           Some (epoch_of (getEpochMap w) j (key_of (p_currentGetUrl p)) + 1) \<and>
         Fetch c (epoch_of (getEpochMap w) j (key_of (p_currentGetUrl p)) + 1)
           \<in> set (inflight (post_resume p (Resolved result) w))) \<and>
      (\<forall>j l. \<not> (l = key_of (p_currentGetUrl p) \<and>
                  getFromDoubleMap (getTriggerMap w) j (key_of (p_currentGetUrl p)) \<noteq> None) \<longrightarrow>
         getFromDoubleMap (getEpochMap (post_resume p (Resolved result) w)) j l =
           getFromDoubleMap (getEpochMap w) j l) \<and>
      length (inflight (post_resume p (Resolved result) w)) =
        length (inflight w) + length (getAllFromUrl (getTriggerMap w) (key_of (p_currentGetUrl p))) \<and>
      timers (post_resume p (Resolved result) w) = timers w)"
proof -
  let ?k = "key_of (p_currentGetUrl p)"
  define w' where "w' = post_resume p (Resolved result) w"
  define w1 where "w1 = setIsPosting (p_instanceId p) False
                 (setError_post (p_instanceId p) (Some Null)
                   ((setData_post (p_instanceId p) (SetValue result) w)
                      \<lparr> setDataMap := setInDoubleMap (setDataMap w) (p_instanceId p) (p_url p) result \<rparr>))"
  have frame1: "getHooks w1 = getHooks w" "getSetDataMap w1 = getSetDataMap w"
    "getDataMap w1 = getDataMap w" "getTriggerMap w1 = getTriggerMap w"
    "getEpochMap w1 = getEpochMap w" "inflight w1 = inflight w" "timers w1 = timers w"
    by (simp_all add: w1_def)
  have dist_s: "distinct (map fst (getSetDataMap w))"
    and own: "\<forall>j d. getFromDoubleMap (getSetDataMap w) j ?k = Some d \<longrightarrow> d = SetData j"
    and dist_t: "distinct (map fst (getTriggerMap w))"
    and trig: "\<forall>j c. getFromDoubleMap (getTriggerMap w) j ?k = Some c \<longrightarrow> t_instanceId c = j \<and> t_url c = ?k"
    using assms(1) by (simp_all add: registry_ok_def)
  show ?thesis
  proof (cases "truthy_flag (useResponseData (p_opts p))")
    case True
    have eq: "w' = (forEach_setData (getAllFromUrl (getSetDataMap w) ?k) (SetValue result) w1)
             \<lparr> getDataMap := overwrite_all (getDataMap w) ?k result \<rparr>"
      unfolding w'_def
      using post_resume_resolved_state [OF assms(2), of result] assms(3) True
      by (simp add: w1_def Let_def)
    have hooks: "getHooks w' j =
         (if getFromDoubleMap (getSetDataMap w) j ?k \<noteq> None
          then map_option (\<lambda>h. h\<lparr> g_data := result \<rparr>) (getHooks w j)
          else getHooks w j)" for j
      unfolding eq
      by (simp add: forEach_setData_getHooks frame1 registered_dispatch_iff [OF dist_s own])
    have cache: "getFromDoubleMap (getDataMap w') j l =
         (if l = ?k \<and> j \<in> fst ` set (getDataMap w) then result
          else getFromDoubleMap (getDataMap w) j l)" for j l
      unfolding eq by (simp add: overwrite_all_lookup)
    have rest: "map fst (getDataMap w') = map fst (getDataMap w)"
      "inflight w' = inflight w" "timers w' = timers w" "getEpochMap w' = getEpochMap w"
      unfolding eq by (simp_all add: overwrite_all_keys frame1)
    have rerender: "inflight (useGet j url options runEffect w') =
           inflight w @
             (if runEffect \<and> \<not> truthy result
              then [Fetch \<lparr> t_instanceId = j, t_url = withQuery url (g_query options),
                            t_keepPreviousData = keepPreviousData options, t_data = result \<rparr>
                      (epoch_of (getEpochMap w) j (withQuery url (g_query options)) + 1)]
              else [])"
      if "getFromDoubleMap (getSetDataMap w) j ?k \<noteq> None" "getHooks w j = Some h"
      for j h url options runEffect
    proof -
      have "getHooks w' j = Some (h\<lparr> g_data := result \<rparr>)"
        using hooks [of j] that by simp
      from useGet_mounted_inflight [OF this, of url options runEffect]
      show ?thesis by (simp add: rest)
    qed
    have renders:
      "inflight (run (map (\<lambda>(j, url, options, runEffect). UseGet j url options runEffect) rs) w') = inflight w \<and>
       getEpochMap (run (map (\<lambda>(j, url, options, runEffect). UseGet j url options runEffect) rs) w') = getEpochMap w \<and>
       timers (run (map (\<lambda>(j, url, options, runEffect). UseGet j url options runEffect) rs) w') = timers w"
      if "truthy result"
        and "\<forall>r \<in> set rs. getFromDoubleMap (getSetDataMap w) (fst r) ?k \<noteq> None \<and> getHooks w (fst r) \<noteq> None"
      for rs
    proof -
      have "\<exists>h. getHooks w' (fst r) = Some h \<and> truthy (g_data h)" if "r \<in> set rs" for r
      proof -
        obtain h where "getHooks w (fst r) = Some h"
          and "getFromDoubleMap (getSetDataMap w) (fst r) ?k \<noteq> None"
          using \<open>r \<in> set rs\<close> \<open>\<forall>r \<in> set rs. _\<close> by blast
        then have "getHooks w' (fst r) = Some (h\<lparr> g_data := result \<rparr>)"
          using hooks [of "fst r"] by simp
        with \<open>truthy result\<close> show ?thesis by simp
      qed
      then have "\<forall>r \<in> set rs. \<exists>h. getHooks w' (fst r) = Some h \<and> truthy (g_data h)"
        by blast
      from renders_with_truthy_data [OF this] show ?thesis
        by (simp add: rest)
    qed
    show ?thesis
      unfolding w'_def [symmetric] using True hooks cache rest rerender renders by simp
  next
    case False
    let ?cs = "getAllFromUrl (getTriggerMap w) ?k"
    have eq: "w' = forEach_trigger ?cs w1"
      unfolding w'_def
      using post_resume_resolved_state [OF assms(2), of result] assms(3) False
      by (simp add: w1_def Let_def)
    note regs = registered_triggers [OF dist_t trig]
    note eff = forEach_trigger_effect [OF regs(1) regs(2), of w1]
    have look: "getFromDoubleMap (getEpochMap w') j l =
           (if l = ?k \<and> getFromDoubleMap (getTriggerMap w) j ?k \<noteq> None
            then Some (Suc (epoch_of (getEpochMap w) j ?k))
            else getFromDoubleMap (getEpochMap w) j l)" for j l
      using eff [of j l, THEN conjunct1] unfolding eq frame1 regs(4) .
    have infl: "inflight w' =
           inflight w @ map (\<lambda>c. Fetch c (Suc (epoch_of (getEpochMap w) (t_instanceId c) ?k))) ?cs"
      using eff [of undefined undefined, THEN conjunct2] unfolding eq frame1 .
    have started: "Fetch c (Suc (epoch_of (getEpochMap w) j ?k)) \<in> set (inflight w')"
      if "getFromDoubleMap (getTriggerMap w) j ?k = Some c" for j c
    proof -
      have "c \<in> set ?cs" using regs(3) [OF that] .
      moreover have "t_instanceId c = j" using trig that by blast
      ultimately show ?thesis unfolding infl by force
    qed
    have data: "map_option g_data (getHooks w' j) = map_option g_data (getHooks w j)" for j
      unfolding eq by (simp add: forEach_trigger_g_data frame1)
    have rest: "getDataMap w' = getDataMap w" "timers w' = timers w"
      unfolding eq by (simp_all add: frame1)
    have len: "length (inflight w') = length (inflight w) + length ?cs"
      unfolding infl by simp
    show ?thesis
      unfolding w'_def [symmetric] using False look started data rest len by auto
  qed
qed

theorem post_success_propagation_witness:
  "registry_ok (posting_three respond_x) \<and>
   \<not> stale (Posting \<lparr> p_instanceId = ''p1'', p_url = ''/x'', p_epoch = 1, p_opts = respond_x,
                       p_currentUrl = ''/x'', p_currentGetUrl = Some ''/x'', p_body = None \<rparr>)
       (posting_three respond_x) \<and>
   truthy_string (getUrl respond_x) \<and> truthy_flag (useResponseData respond_x) \<and>
   map (\<lambda>j. map_option g_data (getHooks (posting_three respond_x) j)) [''i1'', ''i2'', ''i3'', ''i5''] =
     [Some (Some (JNum 3)), Some (Some (JStr ''first'')), Some (Some (JStr ''second'')),
      Some (Some Null)] \<and>
   map (\<lambda>j. map_option g_data
          (getHooks (post_resume
             \<lparr> p_instanceId = ''p1'', p_url = ''/x'', p_epoch = 1, p_opts = respond_x,
               p_currentUrl = ''/x'', p_currentGetUrl = Some ''/x'', p_body = None \<rparr>
             (Resolved (Some (JStr ''fresh''))) (posting_three respond_x)) j))
       [''i1'', ''i2'', ''i3'', ''i5''] =
     [Some (Some (JNum 3)), Some (Some (JStr ''fresh'')), Some (Some (JStr ''fresh'')),
      Some (Some Null)] \<and>
   map (\<lambda>j. getFromDoubleMap (getDataMap (post_resume
             \<lparr> p_instanceId = ''p1'', p_url = ''/x'', p_epoch = 1, p_opts = respond_x,
               p_currentUrl = ''/x'', p_currentGetUrl = Some ''/x'', p_body = None \<rparr>
             (Resolved (Some (JStr ''fresh''))) (posting_three respond_x))) j ''/x'')
       [''i1'', ''i2'', ''i3'', ''i5''] =
     [Some (JStr ''fresh''), Some (JStr ''fresh''), Some (JStr ''fresh''), None] \<and>
   inflight (post_resume
             \<lparr> p_instanceId = ''p1'', p_url = ''/x'', p_epoch = 1, p_opts = respond_x,
               p_currentUrl = ''/x'', p_currentGetUrl = Some ''/x'', p_body = None \<rparr>
             (Resolved (Some (JStr ''fresh''))) (posting_three respond_x)) =
     inflight (posting_three respond_x) \<and>
   inflight (useGet ''i2'' ''/x'' plain_get True (post_resume
             \<lparr> p_instanceId = ''p1'', p_url = ''/x'', p_epoch = 1, p_opts = respond_x,
               p_currentUrl = ''/x'', p_currentGetUrl = Some ''/x'', p_body = None \<rparr>
             (Resolved (Some (JStr ''fresh''))) (posting_three respond_x))) =
     inflight (posting_three respond_x) \<and>
   inflight (run [UseGet ''i2'' ''/x'' plain_get True, UseGet ''i3'' ''/x'' plain_get True]
             (post_resume
             \<lparr> p_instanceId = ''p1'', p_url = ''/x'', p_epoch = 1, p_opts = respond_x,
               p_currentUrl = ''/x'', p_currentGetUrl = Some ''/x'', p_body = None \<rparr>
             (Resolved (Some (JStr ''fresh''))) (posting_three respond_x))) =
     inflight (posting_three respond_x) \<and>
   registry_ok (posting_three refetch_x) \<and>
   \<not> stale (Posting \<lparr> p_instanceId = ''p1'', p_url = ''/x'', p_epoch = 1, p_opts = refetch_x,
                       p_currentUrl = ''/x'', p_currentGetUrl = Some ''/x'', p_body = None \<rparr>)
       (posting_three refetch_x) \<and>
   truthy_string (getUrl refetch_x) \<and> \<not> truthy_flag (useResponseData refetch_x) \<and>
   map (\<lambda>j. getFromDoubleMap (getEpochMap (posting_three refetch_x)) j ''/x'')
       [''i1'', ''i2'', ''i3'', ''i5''] = [None, Some 1, Some 1, None] \<and>
   map (\<lambda>j. getFromDoubleMap (getEpochMap (post_resume
             \<lparr> p_instanceId = ''p1'', p_url = ''/x'', p_epoch = 1, p_opts = refetch_x,
               p_currentUrl = ''/x'', p_currentGetUrl = Some ''/x'', p_body = None \<rparr>
             (Resolved (Some (JStr ''fresh''))) (posting_three refetch_x))) j ''/x'')
       [''i1'', ''i2'', ''i3'', ''i5''] = [None, Some 2, Some 2, None] \<and>
   length (inflight (post_resume
             \<lparr> p_instanceId = ''p1'', p_url = ''/x'', p_epoch = 1, p_opts = refetch_x,
               p_currentUrl = ''/x'', p_currentGetUrl = Some ''/x'', p_body = None \<rparr>
             (Resolved (Some (JStr ''fresh''))) (posting_three refetch_x))) = 3 \<and>
   getDataMap (post_resume
             \<lparr> p_instanceId = ''p1'', p_url = ''/x'', p_epoch = 1, p_opts = refetch_x,
               p_currentUrl = ''/x'', p_currentGetUrl = Some ''/x'', p_body = None \<rparr>
             (Resolved (Some (JStr ''fresh''))) (posting_three refetch_x)) =
     getDataMap (posting_three refetch_x)"
proof -
  let ?pr = "\<lparr> p_instanceId = ''p1'', p_url = ''/x'', p_epoch = 1, p_opts = respond_x,
               p_currentUrl = ''/x'', p_currentGetUrl = Some ''/x'', p_body = None \<rparr>"
  let ?pf = "\<lparr> p_instanceId = ''p1'', p_url = ''/x'', p_epoch = 1, p_opts = refetch_x,
               p_currentUrl = ''/x'', p_currentGetUrl = Some ''/x'', p_body = None \<rparr>"
  let ?wr = "posting_three respond_x"
  let ?wf = "posting_three refetch_x"
  define wr' where "wr' = post_resume ?pr (Resolved (Some (JStr ''fresh''))) ?wr"
  define wf' where "wf' = post_resume ?pf (Resolved (Some (JStr ''fresh''))) ?wf"
  have ok_r: "registry_ok ?wr"
    unfolding posting_three_def cached_world_def
    by (intro registry_ok_run registry_ok_initial)
  have ok_f: "registry_ok ?wf"
    unfolding posting_three_def cached_world_def
    by (intro registry_ok_run registry_ok_initial)
  have ns_r: "\<not> stale (Posting ?pr) ?wr"
    by (simp add: posting_three_def respond_x_def refetch_x_def world_defs eval_defs)
  have ns_f: "\<not> stale (Posting ?pf) ?wf"
    by (simp add: posting_three_def respond_x_def refetch_x_def world_defs eval_defs)
  have g_r: "truthy_string (getUrl (p_opts ?pr))" and u_r: "truthy_flag (useResponseData (p_opts ?pr))"
    by (simp_all add: respond_x_def no_options_def)
  have g_f: "truthy_string (getUrl (p_opts ?pf))" and u_f: "\<not> truthy_flag (useResponseData (p_opts ?pf))"
    by (simp_all add: refetch_x_def no_options_def)
  have k: "key_of (p_currentGetUrl ?pr) = ''/x''" "key_of (p_currentGetUrl ?pf) = ''/x''"
    by (simp_all add: key_of_def)
  have hooks_r: "map (\<lambda>j. getHooks ?wr j) [''i1'', ''i2'', ''i3'', ''i5''] =
     [Some \<lparr> g_data = Some (JNum 3), isGetting = False, g_error = Some Null \<rparr>,
      Some \<lparr> g_data = Some (JStr ''first''), isGetting = False, g_error = Some Null \<rparr>,
      Some \<lparr> g_data = Some (JStr ''second''), isGetting = False, g_error = Some Null \<rparr>,
      Some \<lparr> g_data = Some Null, isGetting = True, g_error = Some Null \<rparr>]"
    by (simp add: posting_three_def respond_x_def refetch_x_def world_defs eval_defs)
  have reg_r: "map (\<lambda>j. getFromDoubleMap (getSetDataMap ?wr) j ''/x'') [''i1'', ''i2'', ''i3'', ''i5''] =
     [None, Some (SetData ''i2''), Some (SetData ''i3''), None]"
    by (simp add: posting_three_def respond_x_def refetch_x_def world_defs eval_defs)
  have keys_r: "fst ` set (getDataMap ?wr) = {''i1'', ''i2'', ''i3''}"
    by (simp add: posting_three_def respond_x_def refetch_x_def world_defs eval_defs)
  have trig_f: "map (\<lambda>j. getFromDoubleMap (getTriggerMap ?wf) j ''/x'' \<noteq> None) [''i1'', ''i2'', ''i3'', ''i5''] =
     [False, True, True, False]"
    by (simp add: posting_three_def respond_x_def refetch_x_def world_defs eval_defs)
  have epochs_f: "map (\<lambda>j. getFromDoubleMap (getEpochMap ?wf) j ''/x'') [''i1'', ''i2'', ''i3'', ''i5''] =
     [None, Some 1, Some 1, None]"
    by (simp add: posting_three_def respond_x_def refetch_x_def world_defs eval_defs)
  have len_f: "length (inflight ?wf) = 1" "length (getAllFromUrl (getTriggerMap ?wf) ''/x'') = 2"
    by (simp_all add: posting_three_def respond_x_def refetch_x_def world_defs eval_defs)
  note R = post_success_propagation [OF ok_r ns_r g_r, of "Some (JStr ''fresh'')",
      THEN conjunct1, THEN mp, OF u_r, unfolded k wr'_def [symmetric]]
  note F = post_success_propagation [OF ok_f ns_f g_f, of "Some (JStr ''fresh'')",
      THEN conjunct2, THEN mp, OF u_f, unfolded k wf'_def [symmetric]]
  have r1: "getHooks wr' j =
         (if getFromDoubleMap (getSetDataMap ?wr) j ''/x'' \<noteq> None
          then map_option (\<lambda>h. h\<lparr> g_data := Some (JStr ''fresh'') \<rparr>) (getHooks ?wr j)
          else getHooks ?wr j)" for j
    using R by blast
  have r2: "getFromDoubleMap (getDataMap wr') j ''/x'' =
         (if j \<in> fst ` set (getDataMap ?wr) then Some (JStr ''fresh'')
          else getFromDoubleMap (getDataMap ?wr) j ''/x'')" for j
    using R by simp
  have r3: "inflight wr' = inflight ?wr"
    using R by blast
  have i2: "getFromDoubleMap (getSetDataMap ?wr) ''i2'' ''/x'' \<noteq> None"
    "getHooks ?wr ''i2'' =
       Some \<lparr> g_data = Some (JStr ''first''), isGetting = False, g_error = Some Null \<rparr>"
    using reg_r hooks_r by simp_all
  have r4: "inflight (useGet ''i2'' ''/x'' plain_get True wr') = inflight ?wr"
    using R i2 by simp
  have i3: "getFromDoubleMap (getSetDataMap ?wr) ''i3'' ''/x'' \<noteq> None"
    "getHooks ?wr ''i3'' \<noteq> None"
    using reg_r hooks_r by simp_all
  have "truthy (Some (JStr ''fresh''))" by simp
  with R have "\<forall>rs. (\<forall>r \<in> set rs.
                  getFromDoubleMap (getSetDataMap ?wr) (fst r) ''/x'' \<noteq> None \<and>
                  getHooks ?wr (fst r) \<noteq> None) \<longrightarrow>
      inflight (run (map (\<lambda>(j, url, options, runEffect). UseGet j url options runEffect) rs) wr') =
        inflight ?wr"
    by blast
  note all_renders = this
  have both: "\<forall>r \<in> set [(''i2'', ''/x'', plain_get, True), (''i3'', ''/x'', plain_get, True)].
      getFromDoubleMap (getSetDataMap ?wr) (fst r) ''/x'' \<noteq> None \<and> getHooks ?wr (fst r) \<noteq> None"
    using i2 i3 by simp
  have r5: "inflight (run [UseGet ''i2'' ''/x'' plain_get True, UseGet ''i3'' ''/x'' plain_get True] wr') =
      inflight ?wr"
    using all_renders [THEN spec, THEN mp, OF both] by simp
  have f1: "getFromDoubleMap (getEpochMap wf') j ''/x'' =
      (if getFromDoubleMap (getTriggerMap ?wf) j ''/x'' \<noteq> None
       then Some (epoch_of (getEpochMap ?wf) j ''/x'' + 1)
       else getFromDoubleMap (getEpochMap ?wf) j ''/x'')" for j
    using F by (cases "getFromDoubleMap (getTriggerMap ?wf) j ''/x''") auto
  have f2: "length (inflight wf') = length (inflight ?wf) + length (getAllFromUrl (getTriggerMap ?wf) ''/x'')"
    and f3: "getDataMap wf' = getDataMap ?wf"
    using F by blast+
  have cache_r: "getFromDoubleMap (getDataMap ?wr) ''i5'' ''/x'' = None"
    using keys_r by (intro getFromDoubleMap_notin) simp
  show ?thesis
    unfolding wr'_def [symmetric] wf'_def [symmetric]
    using ok_r ok_f ns_r ns_f g_r u_r g_f u_f hooks_r reg_r keys_r trig_f epochs_f len_f cache_r
    by (simp add: r1 r2 r3 r4 r5 f1 f2 f3 epoch_of_def)
qed

text \<open>
  As the claim states it, no fetch would follow a post with \<open>useResponseData\<close>.  In
  \<open>posting_three respond_x\<close> the instances \<^verbatim>\<open>i2\<close> and \<^verbatim>\<open>i3\<close> hold data for \<^verbatim>\<open>/x\<close>; the post
  resolves with \<^verbatim>\<open>null\<close>, which becomes their \<open>data\<close>, and the effect of the render that
  follows starts a fetch for each of them.
\<close>

theorem post_success_propagation_counterexample:
  "inflight (posting_three respond_x) =
     [Posting \<lparr> p_instanceId = ''p1'', p_url = ''/x'', p_epoch = 1, p_opts = respond_x,
                p_currentUrl = ''/x'', p_currentGetUrl = Some ''/x'', p_body = None \<rparr>] \<and>
   map (\<lambda>j. map_option g_data (getHooks (posting_three respond_x) j)) [''i2'', ''i3''] =
     [Some (Some (JStr ''first'')), Some (Some (JStr ''second''))] \<and>
   map (\<lambda>j. map_option g_data
          (getHooks (exec (Settle 0 (Resolved (Some Null))) (posting_three respond_x)) j))
       [''i2'', ''i3''] = [Some (Some Null), Some (Some Null)] \<and>
   inflight (exec (Settle 0 (Resolved (Some Null))) (posting_three respond_x)) = [] \<and>
   inflight falsy_response =
     [Fetch \<lparr> t_instanceId = ''i2'', t_url = ''/x'', t_keepPreviousData = False, t_data = Some Null \<rparr> 2,
      Fetch \<lparr> t_instanceId = ''i3'', t_url = ''/x'', t_keepPreviousData = False, t_data = Some Null \<rparr> 2]"
  by (simp add: falsy_response_def posting_three_def respond_x_def world_defs eval_defs)

end
